theory Spec2Isabelle
  imports Main "HOL-Library.Sublist" "HOL-Library.AList"
begin

section \<open>Values of the host language\<close>

text \<open>
  The plugin is JavaScript. The values it handles are the primitives that \<open>JSON.parse\<close>
  gives (strings, numbers, booleans, \<open>null\<close>), \<open>undefined\<close>, and the functions that
  a table can come to hold: the built-in members of \<open>Object.prototype\<close> that every
  object literal inherits, and the plugin's own \<open>String.prototype.format\<close>. The only
  operation the plugin applies to a number or to a function is the conversion to a string,
  so a number is carried by the text that the conversion gives for it, and a function
  likewise.
  \<open>to_string\<close> is that conversion, as in \<open>'' + text\<close> and in the result of a
  replace callback.
\<close>

datatype jsval =
    Undefined
  | Null
  | Bool bool
  | Num string
  | Str string
  | Native string

fun to_string :: "jsval \<Rightarrow> string" where
  "to_string Undefined = ''undefined''"
| "to_string Null = ''null''"
| "to_string (Bool b) = (if b then ''true'' else ''false'')"
| "to_string (Num s) = s"
| "to_string (Str s) = s"
| "to_string (Native s) = s"

datatype error = TypeError

section \<open>The escape pattern\<close>

text \<open>
  \<open>_regex\<close> (line 87 of the core plugin) is built from the parameter "Escape Code":
  every regex metacharacter of the template is escaped, so each character of the template
  stands for itself, and the first occurrence of the (escaped) placeholder \<open>{key}\<close> is
  replaced by the group \<open>([\w\.]+?)\<close>. The compiled pattern is therefore a sequence
  of literal characters with at most one lazy capture group; \<open>split_key\<close> cuts the
  template at the first placeholder. A template without a placeholder compiles to its
  literal characters alone.
\<close>

datatype atom = Chr char | KeyGroup

fun split_key :: "string \<Rightarrow> (string \<times> string) option" where
  "split_key [] = None"
| "split_key (c # cs) =
     (if prefix ''{key}'' (c # cs) then Some ([], drop 5 (c # cs))
      else map_option (\<lambda>(p, s). (c # p, s)) (split_key cs))"

definition compile :: "string \<Rightarrow> atom list" where
  "compile template =
     (case split_key template of
        None \<Rightarrow> map Chr template
      | Some (p, s) \<Rightarrow> map Chr p @ KeyGroup # map Chr s)"

text \<open>The class \<open>[\w\.]\<close>: ASCII letters, digits, the underscore and the dot.\<close>

definition is_key_char :: "char \<Rightarrow> bool" where
  "is_key_char c =
     (let n = (of_char c :: nat) in
        (65 \<le> n \<and> n \<le> 90) \<or> (97 \<le> n \<and> n \<le> 122) \<or> (48 \<le> n \<and> n \<le> 57)
          \<or> n = 95 \<or> n = 46)"

text \<open>
  Matching at one start position, with the backtracking of the lazy quantifier: the group
  takes one more character of its class at a time and stops at the first length after which
  the rest of the pattern matches. The result is the captured key, if the pattern has a
  group, and the text left after the match.
\<close>

fun match_atoms :: "atom list \<Rightarrow> string \<Rightarrow> (string option \<times> string) option"
and lazy_key :: "atom list \<Rightarrow> string \<Rightarrow> string \<Rightarrow> (string option \<times> string) option" where
  "match_atoms [] text = Some (None, text)"
| "match_atoms (Chr c # as) [] = None"
| "match_atoms (Chr c # as) (x # xs) = (if x = c then match_atoms as xs else None)"
| "match_atoms (KeyGroup # as) text = lazy_key as [] text"
| "lazy_key as k [] = None"
| "lazy_key as k (x # xs) =
     (if is_key_char x then
        (case match_atoms as xs of
           Some (g, rest) \<Rightarrow> Some (Some (k @ [x]), rest)
         | None \<Rightarrow> lazy_key as (k @ [x]) xs)
      else None)"

text \<open>
  One global scan of \<open>String.prototype.replace\<close>, left to right: the text is cut into the
  characters that are copied and the matches that are handed to the callback. A match is
  recorded with its matched text and its captured key. After an empty match (only the
  empty pattern has one) the scan moves on by one character.
\<close>

datatype piece = Lit char | Tok string "string option"

function pieces :: "atom list \<Rightarrow> string \<Rightarrow> piece list" where
  "pieces re [] = (case match_atoms re [] of Some (g, rest) \<Rightarrow> [Tok [] g] | None \<Rightarrow> [])"
| "pieces re (c # cs) =
     (case match_atoms re (c # cs) of
        None \<Rightarrow> Lit c # pieces re cs
      | Some (g, rest) \<Rightarrow>
          if length rest < length (c # cs)
          then Tok (take (length (c # cs) - length rest) (c # cs)) g # pieces re rest
          else Tok [] g # Lit c # pieces re cs)"
  by pat_completeness auto
termination
  by (relation "measure (\<lambda>(re, text). length text)") auto

text \<open>\<open>findAll\<close> of the specification: the matches of one scan, in order.\<close>

fun is_tok :: "piece \<Rightarrow> bool" where
  "is_tok (Tok m g) = True"
| "is_tok (Lit c) = False"

definition find_all :: "atom list \<Rightarrow> string \<Rightarrow> piece list" where
  "find_all re text = filter is_tok (pieces re text)"

section \<open>Documents and flat tables\<close>

text \<open>
  A document is what \<open>JSON.parse\<close> returns (line 123). An object is given by its
  entries in the order in which \<open>for ... in\<close> visits them; a number by its text.
\<close>

datatype json =
    JNull
  | JBool bool
  | JNum string
  | JStr string
  | JArr "json list"
  | JObj "(string \<times> json) list"

text \<open>The decimal form of an array index.\<close>

definition digit :: "nat \<Rightarrow> char" where
  "digit n = ''0123456789'' ! n"

function dec :: "nat \<Rightarrow> string" where
  "dec n = (if n < 10 then [digit n] else dec (n div 10) @ [digit (n mod 10)])"
  by pat_completeness auto
termination
  by (relation "measure id") auto

declare dec.simps [simp del]

text \<open>\<open>typeof value === 'object'\<close> holds of objects, arrays and \<open>null\<close>.\<close>

fun typeof_object :: "json \<Rightarrow> bool" where
  "typeof_object JNull = True"
| "typeof_object (JArr xs) = True"
| "typeof_object (JObj kvs) = True"
| "typeof_object (JBool b) = False"
| "typeof_object (JNum n) = False"
| "typeof_object (JStr s) = False"

text \<open>
  The pairs \<open>(key, object[key])\<close> that \<open>for (var key in object)\<close> visits among the own
  properties: the entries of an object, the indices of an array, the indices of a string
  (whose elements are its characters), and nothing for \<open>null\<close>, a number or a boolean.
\<close>

fun entries :: "json \<Rightarrow> (string \<times> json) list" where
  "entries (JObj kvs) = kvs"
| "entries (JArr xs) = zip (map dec [0..<length xs]) xs"
| "entries (JStr s) = zip (map dec [0..<length s]) (map (\<lambda>c. JStr [c]) s)"
| "entries JNull = []"
| "entries (JBool b) = []"
| "entries (JNum n) = []"

text \<open>
  After the own properties \<open>for ... in\<close> visits the enumerable properties of the
  prototype chain. The plugin itself assigns \<open>String.prototype.format\<close> (lines 281 to
  283), which makes it enumerable, so the loop over a string ends with the key
  \<open>format\<close>, whose value is that function (its text is its source). Members that
  other scripts of the host add to the prototypes are outside this development.
\<close>

definition format_function :: jsval where
  "format_function =
     Native (''function() {'' @ [CHR 0x0A]
       @ ''            return alias_format.apply(_replace(this), arguments);'' @ [CHR 0x0A]
       @ ''        }'')"

fun inherited :: "json \<Rightarrow> (string \<times> jsval) list" where
  "inherited (JStr s) = [(''format'', format_function)]"
| "inherited (JObj kvs) = []"
| "inherited (JArr xs) = []"
| "inherited JNull = []"
| "inherited (JBool b) = []"
| "inherited (JNum n) = []"

text \<open>The value of a leaf; \<open>_flatten\<close> reads it only where \<open>typeof\<close> is not
  \<open>'object'\<close>.\<close>

fun value_of :: "json \<Rightarrow> jsval" where
  "value_of JNull = Null"
| "value_of (JBool b) = Bool b"
| "value_of (JNum n) = Num n"
| "value_of (JStr s) = Str s"
| "value_of (JArr xs) = Undefined"
| "value_of (JObj kvs) = Undefined"

text \<open>
  \<open>_flatten\<close> (lines 132 to 141). A table is the list of the own properties of the
  object that it builds; only the lookups of \<open>_replace\<close> observe a table, so the order
  of the list plays no role later. The loop runs over the own properties and then over the
  inherited ones, whose values are functions and are stored as they are.
  \<open>_flatten\<close> starts from the object literal \<open>{}\<close>, which inherits from
  \<open>Object.prototype\<close>: the assignment \<open>result[key] = value\<close> with the key
  \<open>__proto__\<close> runs the inherited setter, which ignores a primitive value and creates no
  property; any other key is updated in place or added at the end.
\<close>

type_synonym table = "(string \<times> jsval) list"

definition assign :: "table \<Rightarrow> string \<Rightarrow> jsval \<Rightarrow> table" where
  "assign result key v =
     (if key = ''__proto__'' then result else AList.update key v result)"

function flatten :: "json \<Rightarrow> table" where
  "flatten object =
     fold (\<lambda>(key, f) result. assign result key f) (inherited object)
       (fold (\<lambda>(key, v) result.
                if typeof_object v
                then fold (\<lambda>(x, tv) result. assign result (key @ ''.'' @ x) tv) (flatten v) result
                else assign result key (value_of v))
             (entries object) [])"
  by pat_completeness auto
termination
proof (relation "measure size")
  fix object :: json and kv :: "string \<times> json" and result :: table and key v
  assume mem: "kv \<in> set (entries object)" and kv: "(key, v) = kv" and obj: "typeof_object v"
  have "size v < size object"
  proof (cases object)
    case (JArr xs)
    with mem kv have "v \<in> set xs" by (auto dest: set_zip_rightD)
    then have "size v \<le> size_list size xs" by (simp add: size_list_estimation')
    with JArr show ?thesis by simp
  next
    case (JObj kvs)
    with mem kv have "(key, v) \<in> set kvs" by simp
    then have "size_prod (\<lambda>_. 0) size (key, v) \<le> size_list (size_prod (\<lambda>_. 0) size) kvs"
      by (rule size_list_estimation') simp
    with JObj show ?thesis by simp
  next
    case (JStr str)
    with mem kv obj show ?thesis by (auto dest!: set_zip_rightD)
  qed (use mem in auto)
  then show "(v, object) \<in> measure size" by simp
qed simp

declare flatten.simps [simp del]

text \<open>
  The leaves of a document as the specification describes them: the internal nodes are the
  objects and the arrays, whose children are reached by a key or by an index in decimal
  form; everything else is a leaf, reached by the path of the keys and indices to it. The
  key of a leaf in the flat table is its path joined with dots.
\<close>

fun is_collection :: "json \<Rightarrow> bool" where
  "is_collection (JArr xs) = True"
| "is_collection (JObj kvs) = True"
| "is_collection JNull = False"
| "is_collection (JBool b) = False"
| "is_collection (JNum n) = False"
| "is_collection (JStr s) = False"

fun children :: "json \<Rightarrow> (string \<times> json) list" where
  "children (JObj kvs) = kvs"
| "children (JArr xs) = zip (map dec [0..<length xs]) xs"
| "children JNull = []"
| "children (JBool b) = []"
| "children (JNum n) = []"
| "children (JStr s) = []"

function leaf_paths :: "json \<Rightarrow> (string list \<times> jsval) list" where
  "leaf_paths d =
     concat (map (\<lambda>(key, v).
                    if is_collection v then map (\<lambda>(p, w). (key # p, w)) (leaf_paths v)
                    else [([key], value_of v)])
                 (children d))"
  by pat_completeness auto
termination
proof (relation "measure size")
  fix d :: json and kv :: "string \<times> json" and key v
  assume mem: "kv \<in> set (children d)" and kv: "(key, v) = kv"
  have "size v < size d"
  proof (cases d)
    case (JArr xs)
    with mem kv have "v \<in> set xs" by (auto dest: set_zip_rightD)
    then have "size v \<le> size_list size xs" by (simp add: size_list_estimation')
    with JArr show ?thesis by simp
  next
    case (JObj kvs)
    with mem kv have "(key, v) \<in> set kvs" by simp
    then have "size_prod (\<lambda>_. 0) size (key, v) \<le> size_list (size_prod (\<lambda>_. 0) size) kvs"
      by (rule size_list_estimation') simp
    with JObj show ?thesis by simp
  qed (use mem in auto)
  then show "(v, d) \<in> measure size" by simp
qed simp

declare leaf_paths.simps [simp del]

fun join_path :: "string list \<Rightarrow> string" where
  "join_path [] = []"
| "join_path [k] = k"
| "join_path (k # p) = k @ ''.'' @ join_path p"

definition leaf_entries :: "json \<Rightarrow> table" where
  "leaf_entries d = map (\<lambda>(p, v). (join_path p, v)) (leaf_paths d)"

text \<open>
  A leaf that \<open>_flatten\<close> keeps: its value is a scalar (not \<open>null\<close>, which the
  code takes for an object without entries) and its own key is not \<open>__proto__\<close>.
\<close>

definition scalar_leaf :: "string list \<times> jsval \<Rightarrow> bool" where
  "scalar_leaf l = (snd l \<noteq> Null \<and> last (fst l) \<noteq> ''__proto__'')"

text \<open>The entries of the table that come from one child of a node.\<close>

definition emit :: "string \<times> json \<Rightarrow> table" where
  "emit kv =
     (if is_collection (snd kv)
      then map (\<lambda>(x, w). (fst kv @ ''.'' @ x, w)) (leaf_entries (snd kv))
      else [(fst kv, value_of (snd kv))])"

section \<open>The registry\<close>

text \<open>
  The members that an object literal inherits from \<open>Object.prototype\<close> in the engine
  that runs the plugin. A built-in function converts to the text
  \<open>function name() { [native code] }\<close>, and the accessor \<open>__proto__\<close> returns the
  prototype itself, which converts to \<open>[object Object]\<close>.
\<close>

definition native_function :: "string \<Rightarrow> jsval" where
  "native_function name = Native (''function '' @ name @ ''() { [native code] }'')"

definition object_prototype :: "string \<Rightarrow> jsval option" where
  "object_prototype k =
     (if k = ''constructor'' then Some (native_function ''Object'')
      else if k = ''__proto__'' then Some (Native ''[object Object]'')
      else if List.member
        [''hasOwnProperty'', ''isPrototypeOf'', ''propertyIsEnumerable'', ''toLocaleString'',
         ''toString'', ''valueOf'', ''__defineGetter__'', ''__defineSetter__'',
         ''__lookupGetter__'', ''__lookupSetter__''] k
      then Some (native_function k)
      else None)"

text \<open>\<open>d[k]\<close> on a table: the own property, else the inherited one, else \<open>undefined\<close>.\<close>

definition get :: "table \<Rightarrow> string \<Rightarrow> jsval" where
  "get d k =
     (case map_of d k of
        Some v \<Rightarrow> v
      | None \<Rightarrow> (case object_prototype k of Some v \<Rightarrow> v | None \<Rightarrow> Undefined))"

text \<open>
  \<open>_data\<close> (line 98) has a null prototype and holds, for each configured language,
  \<open>null\<close> until its file is loaded and its table afterwards. A language that
  \<open>_data\<close> does not hold reads as \<open>undefined\<close>. The registry also carries what the
  setter of the language touches: the system data of the host (absent until loaded, then
  its game title) and the title of the document.
\<close>

datatype slot = Unloaded | Loaded table

record registry =
  param_languages :: "string list"
  regex :: "atom list"
  lang :: jsval
  data :: "string \<rightharpoonup> slot"
  dataSystem :: "string option"
  document_title :: string

text \<open>
  \<open>Array.prototype.indexOf\<close> (strict equality, \<open>-1\<close> when absent), the read
  \<open>array[i]\<close> (\<open>undefined\<close> out of range) and the host's \<open>contains\<close>.
\<close>

fun indexOf :: "string list \<Rightarrow> jsval \<Rightarrow> int" where
  "indexOf [] v = - 1"
| "indexOf (x # xs) v =
     (if v = Str x then 0 else (let i = indexOf xs v in if i < 0 then - 1 else i + 1))"

definition elem :: "string list \<Rightarrow> int \<Rightarrow> jsval" where
  "elem xs i = (if 0 \<le> i \<and> i < int (length xs) then Str (xs ! nat i) else Undefined)"

definition contains :: "string list \<Rightarrow> jsval \<Rightarrow> bool" where
  "contains xs v = (indexOf xs v \<ge> 0)"

text \<open>
  The state when the plugin is loaded (lines 79 to 98): the fields of the parameter
  "Languages" without the empty ones, the compiled pattern, the first language as the
  current one, and \<open>null\<close> for every language.
\<close>

definition init :: "string \<Rightarrow> string list \<Rightarrow> registry" where
  "init param_escape param =
     (let languages = filter (\<lambda>l. l \<noteq> []) param in
      \<lparr> param_languages = languages,
        regex = compile param_escape,
        lang = elem languages 0,
        data = fold (\<lambda>l m. m(l \<mapsto> Unloaded)) languages Map.empty,
        dataSystem = None,
        document_title = [] \<rparr>)"

text \<open>
  \<open>_initialize\<close> (lines 109 to 114) starts the loads and stores an empty table under
  the key \<open>undefined\<close>; \<open>load\<close> is the callback that runs when the file of a
  language arrives (line 111); \<open>_isReady\<close> is line 146.
\<close>

definition initialize :: "registry \<Rightarrow> registry" where
  "initialize st = st\<lparr>data := (data st)(''undefined'' \<mapsto> Loaded [])\<rparr>"

definition load :: "string \<Rightarrow> json \<Rightarrow> registry \<Rightarrow> registry" where
  "load l document st = st\<lparr>data := (data st)(l \<mapsto> Loaded (flatten document))\<rparr>"

definition isReady :: "registry \<Rightarrow> bool" where
  "isReady st =
     list_all (\<lambda>l. case data st l of Some (Loaded t) \<Rightarrow> True | _ \<Rightarrow> False)
       (param_languages st)"

section \<open>The resolver\<close>

text \<open>
  \<open>_replace\<close> (lines 152 to 157). First \<open>d[k]\<close> in the callback, where
  \<open>d = _data[_lang]\<close>: reading a property of \<open>undefined\<close> or of \<open>null\<close> throws a
  TypeError.
\<close>

fun property :: "slot option \<Rightarrow> string \<Rightarrow> error + jsval" where
  "property None k = Inl TypeError"
| "property (Some Unloaded) k = Inl TypeError"
| "property (Some (Loaded t)) k = Inr (get t k)"

text \<open>
  The result of \<open>r.replace(_regex, callback)\<close> from the pieces of the scan. The callback
  receives the captured key; a pattern without a group hands it the offset of the match
  instead. Its result is converted to a string.
\<close>

fun substitute :: "slot option \<Rightarrow> nat \<Rightarrow> piece list \<Rightarrow> error + string" where
  "substitute d off [] = Inr []"
| "substitute d off (Lit c # ps) =
     (case substitute d (Suc off) ps of Inl e \<Rightarrow> Inl e | Inr r \<Rightarrow> Inr (c # r))"
| "substitute d off (Tok m g # ps) =
     (case property d (case g of Some k \<Rightarrow> k | None \<Rightarrow> dec off) of
        Inl e \<Rightarrow> Inl e
      | Inr v \<Rightarrow>
          (case substitute d (off + length m) ps of
             Inl e \<Rightarrow> Inl e
           | Inr r \<Rightarrow> Inr (to_string v @ r)))"

text \<open>One turn of the loop: the flag \<open>f\<close> is set iff the callback ran.\<close>

definition replace_pass :: "atom list \<Rightarrow> slot option \<Rightarrow> string \<Rightarrow> error + bool \<times> string" where
  "replace_pass re d r =
     (case substitute d 0 (pieces re r) of
        Inl e \<Rightarrow> Inl e
      | Inr r' \<Rightarrow> Inr (find_all re r \<noteq> [], r'))"

text \<open>
  The loop \<open>while(f) { ... }\<close> may run forever; \<open>None\<close> is the run that does not
  return.
\<close>

partial_function (option) replace_loop ::
  "atom list \<Rightarrow> slot option \<Rightarrow> string \<Rightarrow> (error + string) option" where
  "replace_loop re d r =
     (case replace_pass re d r of
        Inl e \<Rightarrow> Some (Inl e)
      | Inr (f, r') \<Rightarrow> if f then replace_loop re d r' else Some (Inr r'))"

definition replace :: "registry \<Rightarrow> jsval \<Rightarrow> (error + jsval) option" where
  "replace st text =
     (if text = Undefined \<or> text = Null then Some (Inr text)
      else map_option (map_sum id Str)
             (replace_loop (regex st) (data st (to_string (lang st))) (to_string text)))"

text \<open>The script calls \<open>IAVRA.I18N.localize\<close> and \<open>IAVRA.I18N.languages\<close>.\<close>

definition localize :: "registry \<Rightarrow> jsval \<Rightarrow> (error + jsval) option" where
  "localize st text = replace st text"

definition languages :: "registry \<Rightarrow> string list" where
  "languages st = param_languages st"

text \<open>
  The property \<open>language\<close> (lines 180 to 186). The setter assigns \<open>_lang\<close> and then
  calls \<open>updateDocumentTitle\<close> (lines 211 to 213), which resolves the game title once
  the system data is there. A call ends with the state it leaves behind and the error it
  threw, if any; \<open>None\<close> is the call that does not return.
\<close>

definition get_language :: "registry \<Rightarrow> jsval" where
  "get_language st = lang st"

definition updateDocumentTitle :: "registry \<Rightarrow> (error option \<times> registry) option" where
  "updateDocumentTitle st =
     (case dataSystem st of
        None \<Rightarrow> Some (None, st)
      | Some gameTitle \<Rightarrow>
          (case replace st (Str gameTitle) of
             None \<Rightarrow> None
           | Some (Inl e) \<Rightarrow> Some (Some e, st)
           | Some (Inr v) \<Rightarrow> Some (None, st\<lparr>document_title := to_string v\<rparr>)))"

definition set_language :: "jsval \<Rightarrow> registry \<Rightarrow> (error option \<times> registry) option" where
  "set_language v st =
     updateDocumentTitle
       (st\<lparr>lang := (if contains (param_languages st) v then v
                    else elem (param_languages st) 0)\<rparr>)"

section \<open>The options menu\<close>

text \<open>\<open>_prevLanguage\<close> and \<open>_nextLanguage\<close> of the menu plugin (lines 38 to 49).\<close>

definition prevLanguage :: "registry \<Rightarrow> jsval \<Rightarrow> jsval" where
  "prevLanguage st language =
     (let ls = languages st; index = indexOf ls language + 1
      in elem ls (if index \<ge> int (length ls) then 0 else index))"

definition nextLanguage :: "registry \<Rightarrow> jsval \<Rightarrow> jsval" where
  "nextLanguage st language =
     (let ls = languages st; index = indexOf ls language - 1
      in elem ls (if index < 0 then int (length ls) - 1 else index))"

section \<open>Examples\<close>

text \<open>The document and the configuration of the end-to-end example.\<close>

definition example_document :: json where
  "example_document =
     JObj [(''text'', JObj [(''test'', JStr ''This is a test'')]),
           (''hero'', JStr ''Harold''),
           (''greet'', JStr ''Hi, I'm #{hero}'')]"

definition example_table :: table where
  "example_table =
     [(''text.test'', Str ''This is a test''),
      (''hero'', Str ''Harold''),
      (''greet'', Str ''Hi, I'm #{hero}'')]"

text \<open>One language, \<open>en\<close>, with the default escape code; before and after its file arrives.\<close>

definition unloaded_registry :: registry where
  "unloaded_registry = initialize (init ''#{{key}}'' [''en''])"

definition example_registry :: registry where
  "example_registry = load ''en'' example_document unloaded_registry"

text \<open>The system data (with a localized game title) arrives before the file of \<open>en\<close>.\<close>

definition booting_registry :: registry where
  "booting_registry = unloaded_registry\<lparr>dataSystem := Some ''#{title}''\<rparr>"

text \<open>The running game: the system data and the file of \<open>en\<close> have arrived.\<close>

definition running_registry :: registry where
  "running_registry = example_registry\<lparr>dataSystem := Some ''#{hero}''\<rparr>"

text \<open>No language is configured; two languages are configured.\<close>

definition empty_registry :: registry where
  "empty_registry = initialize (init ''#{{key}}'' [])"

definition bilingual_registry :: registry where
  "bilingual_registry = initialize (init ''#{{key}}'' [''en'', ''de''])"

text \<open>
  The key-reference graph of a table under a pattern: an edge from a key to every key that
  a token in its value captures.
\<close>

fun captured :: "piece \<Rightarrow> string list" where
  "captured (Tok m (Some k)) = [k]"
| "captured (Tok m None) = []"
| "captured (Lit c) = []"

definition captured_keys :: "atom list \<Rightarrow> string \<Rightarrow> string list" where
  "captured_keys re text = concat (map captured (pieces re text))"

definition references :: "atom list \<Rightarrow> table \<Rightarrow> (string \<times> string) list" where
  "references re t =
     concat (map (\<lambda>(k, v). map (Pair k) (captured_keys re (to_string v))) t)"

definition acyclic_references :: "atom list \<Rightarrow> table \<Rightarrow> bool" where
  "acyclic_references re t = acyclic (set (references re t))"

text \<open>
  A value is closed for a marker character when the scan of the value alone copies no
  marker: every marker in the value starts a complete token inside the value.
\<close>

fun stray :: "char \<Rightarrow> piece \<Rightarrow> bool" where
  "stray c (Lit x) = (x = c)"
| "stray c (Tok m g) = False"

definition closed_value :: "char \<Rightarrow> atom list \<Rightarrow> string \<Rightarrow> bool" where
  "closed_value c re v = (filter (stray c) (pieces re v) = [])"

text \<open>
  The measure of the termination proof. Every marker of a text carries a weight: the
  weight \<open>w k\<close> of the key where the marker starts a token for \<open>k\<close>, and the bound
  \<open>W\<close> where it starts none. \<open>pcost\<close> is the same count on the pieces of a scan.
\<close>

fun cost :: "(string \<Rightarrow> nat) \<Rightarrow> nat \<Rightarrow> char \<Rightarrow> atom list \<Rightarrow> string \<Rightarrow> nat" where
  "cost w W c re [] = 0"
| "cost w W c re (x # xs) =
     (if x = c then (case match_atoms re (x # xs) of Some (Some k, rest) \<Rightarrow> w k | _ \<Rightarrow> W)
      else 0) + cost w W c re xs"

fun pcost :: "(string \<Rightarrow> nat) \<Rightarrow> nat \<Rightarrow> char \<Rightarrow> piece \<Rightarrow> nat" where
  "pcost w W c (Lit x) = (if x = c then W else 0)"
| "pcost w W c (Tok m (Some k)) = w k"
| "pcost w W c (Tok m None) = W"

text \<open>
  A document whose only reference goes from \<open>b\<close> to \<open>a\<close>; the value of \<open>a\<close> is the
  opening delimiter alone.
\<close>

definition splice_document :: json where
  "splice_document = JObj [(''a'', JStr ''#{''), (''b'', JStr ''#{a}b}'')]"

definition splice_table :: table where
  "splice_table = [(''a'', Str ''#{''), (''b'', Str ''#{a}b}'')]"

definition splice_registry :: registry where
  "splice_registry = load ''en'' splice_document unloaded_registry"

text \<open>The same table behind a game title that refers to \<open>b\<close>.\<close>

definition looping_registry :: registry where
  "looping_registry = splice_registry\<lparr>dataSystem := Some ''#{b}''\<rparr>"




text \<open>Two paths that join to the same key, and the example with an array.\<close>

definition collision_document :: json where
  "collision_document = JObj [(''a.b'', JStr ''x''), (''a'', JObj [(''b'', JStr ''y'')])]"

definition list_document :: json where
  "list_document = JObj [(''list'', JArr [JStr ''A'', JStr ''B''])]"

section \<open>Properties of the pattern\<close>

text \<open>
  A template whose prefix holds no placeholder compiles to the prefix, the group and the
  suffix.
\<close>

lemma split_key_None_iff: "split_key t = None \<Longrightarrow> \<not> prefix ''{key}'' t"
  by (cases t) (auto split: if_splits)

lemma no_early_placeholder:
  assumes "\<not> prefix ''{key}'' (c # p)"
  shows "\<not> prefix ''{key}'' (c # p @ ''{key}'' @ s)"
proof
  assume a: "prefix ''{key}'' (c # p @ ''{key}'' @ s)"
  then have c: "c = CHR ''{''" by simp
  show False
  proof (cases "length p < 4")
    case True
    then consider "p = []" | x1 where "p = [x1]" | x1 x2 where "p = [x1, x2]"
      | x1 x2 x3 where "p = [x1, x2, x3]"
      by (cases p; cases "tl p"; cases "tl (tl p)"; cases "tl (tl (tl p))") auto
    then show False using a by cases auto
  next
    case False
    then obtain x1 x2 x3 x4 q where "p = x1 # x2 # x3 # x4 # q"
      by (cases p; cases "tl p"; cases "tl (tl p)"; cases "tl (tl (tl p))") auto
    with a assms show False by auto
  qed
qed

lemma split_key_placeholder:
  "split_key p = None \<Longrightarrow> split_key (p @ ''{key}'' @ s) = Some (p, s)"
proof (induction p)
  case Nil
  then show ?case by simp
next
  case (Cons c p)
  from Cons.prems have np: "\<not> prefix ''{key}'' (c # p)" by (rule split_key_None_iff)
  then have "\<not> prefix ''{key}'' (c # p @ ''{key}'' @ s)" by (rule no_early_placeholder)
  moreover from Cons.prems np have "split_key p = None" by (auto split: if_splits)
  ultimately show ?case using Cons.IH by (simp del: Cons_prefix_Cons)
qed

lemma compile_placeholder:
  "split_key p = None \<Longrightarrow> compile (p @ ''{key}'' @ s) = map Chr p @ KeyGroup # map Chr s"
  by (simp only: compile_def split_key_placeholder option.case prod.case)

section \<open>Properties of one scan\<close>

lemma substitute_no_tok:
  "filter is_tok (pieces re s) = [] \<Longrightarrow> substitute d off (pieces re s) = Inr s"
proof (induction re s arbitrary: off rule: pieces.induct)
  case (1 re)
  then show ?case by (cases "match_atoms re []") auto
next
  case (2 re c cs)
  then show ?case by (cases "match_atoms re (c # cs)") (auto split: if_splits)
qed

lemma substitute_tok_error:
  "filter is_tok ps \<noteq> [] \<Longrightarrow> d = None \<or> d = Some Unloaded \<Longrightarrow>
   substitute d off ps = Inl TypeError"
proof (induction ps arbitrary: off)
  case Nil
  then show ?case by simp
next
  case (Cons p ps)
  then show ?case by (cases p) (auto split: sum.splits)
qed

lemma replace_loop_no_match:
  "find_all re s = [] \<Longrightarrow> replace_loop re d s = Some (Inr s)"
  by (subst replace_loop.simps) (simp add: replace_pass_def find_all_def substitute_no_tok)

lemma replace_loop_unloaded:
  "find_all re s \<noteq> [] \<Longrightarrow> d = None \<or> d = Some Unloaded \<Longrightarrow>
   replace_loop re d s = Some (Inl TypeError)"
  by (subst replace_loop.simps) (simp add: replace_pass_def find_all_def substitute_tok_error)

lemma match_literal_prefix: "match_atoms (map Chr p @ as) (p @ t) = match_atoms as t"
  by (induction p) simp_all

lemma match_literal_mismatch:
  "t = x # xs \<Longrightarrow> s = c # cs \<Longrightarrow> x \<noteq> c \<Longrightarrow> match_atoms (map Chr s) t = None"
  by simp

lemma match_literal_exact: "match_atoms (map Chr s) (s @ t) = Some (None, t)"
  using match_literal_prefix [of s "[]" t] by simp

lemma lazy_key_exact:
  assumes "s \<noteq> []" and "\<not> is_key_char (hd s)"
  shows "a \<noteq> [] \<Longrightarrow> list_all is_key_char a \<Longrightarrow>
         lazy_key (map Chr s) k (a @ s @ t) = Some (Some (k @ a), t)"
proof (induction a arbitrary: k)
  case Nil
  then show ?case by simp
next
  case (Cons x a)
  show ?case
  proof (cases a)
    case Nil
    with Cons.prems show ?thesis by (simp add: match_literal_exact)
  next
    case (Cons y ys)
    from assms obtain c cs where s: "s = c # cs" and c: "\<not> is_key_char c"
      by (cases s) auto
    from Cons Cons.prems have y: "is_key_char y" by simp
    with c have "y \<noteq> c" by auto
    with s Cons have "match_atoms (map Chr s) (a @ s @ t) = None" by simp
    moreover from Cons.IH [of "k @ [x]"] Cons Cons.prems
    have "lazy_key (map Chr s) (k @ [x]) (a @ s @ t) = Some (Some (k @ x # a), t)" by simp
    ultimately show ?thesis using Cons.prems by simp
  qed
qed

lemma match_token:
  assumes "s \<noteq> []" and "\<not> is_key_char (hd s)" and "a \<noteq> []" and "list_all is_key_char a"
  shows "match_atoms (map Chr p @ KeyGroup # map Chr s) (p @ a @ s @ t) = Some (Some a, t)"
  using lazy_key_exact [OF assms, of "[]" t] by (simp add: match_literal_prefix)

lemma match_token_empty: "match_atoms (map Chr p @ KeyGroup # as) [] = None"
  by (cases p) simp_all

lemma pieces_token:
  assumes "s \<noteq> []" and "\<not> is_key_char (hd s)" and "a \<noteq> []" and "list_all is_key_char a"
  shows "pieces (map Chr p @ KeyGroup # map Chr s) (p @ a @ s @ t)
         = Tok (p @ a @ s) (Some a) # pieces (map Chr p @ KeyGroup # map Chr s) t"
proof -
  let ?re = "map Chr p @ KeyGroup # map Chr s"
  from assms(3) obtain c cs where whole: "p @ a @ s @ t = c # cs"
    by (cases "p @ a @ s @ t") auto
  have m: "match_atoms ?re (c # cs) = Some (Some a, t)"
    using match_token [OF assms, of p t] whole by simp
  have len: "length (c # cs) = length (p @ a @ s) + length t"
    using whole [symmetric] by simp
  then have shorter: "length t < length (c # cs)" using assms(3) by simp
  have "take (length (c # cs) - length t) (c # cs) = p @ a @ s"
    using len whole [symmetric] by simp
  with m shorter have "pieces ?re (c # cs) = Tok (p @ a @ s) (Some a) # pieces ?re t"
    by simp
  with whole show ?thesis by simp
qed

lemma match_literal_shape:
  "match_atoms (map Chr p @ as) xs = Some r \<Longrightarrow> \<exists>t. xs = p @ t \<and> match_atoms as t = Some r"
proof (induction p arbitrary: xs)
  case Nil
  then show ?case by simp
next
  case (Cons c p)
  then show ?case by (cases xs) (auto split: if_splits)
qed

lemma match_literal_only:
  "match_atoms (map Chr s) xs = Some (g, rest) \<Longrightarrow> g = None \<and> xs = s @ rest"
  using match_literal_shape [of s "[]" xs "(g, rest)"] by auto

lemma match_literal_extend:
  "match_atoms (map Chr s) xs = None \<Longrightarrow> length s \<le> length xs \<Longrightarrow>
   match_atoms (map Chr s) (xs @ t) = None"
proof (induction s arbitrary: xs)
  case Nil
  then show ?case by simp
next
  case (Cons c s)
  then show ?case by (cases xs) (auto split: if_splits)
qed

lemma lazy_key_shape:
  "lazy_key (map Chr s) acc xs = Some (g, rest) \<Longrightarrow>
   \<exists>k. k \<noteq> [] \<and> list_all is_key_char k \<and> g = Some (acc @ k) \<and> xs = k @ s @ rest"
proof (induction xs arbitrary: acc)
  case Nil
  then show ?case by simp
next
  case (Cons x xs)
  from Cons.prems have x: "is_key_char x" by (auto split: if_splits)
  show ?case
  proof (cases "match_atoms (map Chr s) xs")
    case None
    with Cons.prems x have "lazy_key (map Chr s) (acc @ [x]) xs = Some (g, rest)" by simp
    from Cons.IH [OF this] obtain k where
      "k \<noteq> []" "list_all is_key_char k" "g = Some ((acc @ [x]) @ k)" "xs = k @ s @ rest"
      by blast
    with x show ?thesis by (intro exI [of _ "x # k"]) simp
  next
    case (Some r)
    obtain g' rest' where r: "r = (g', rest')" by (cases r)
    with Some Cons.prems x have "g = Some (acc @ [x])" and "rest' = rest" by simp_all
    moreover from Some r have "xs = s @ rest'" by (simp add: match_literal_only)
    ultimately show ?thesis using x by (intro exI [of _ "[x]"]) simp
  qed
qed

lemma match_token_shape:
  assumes "match_atoms (map Chr p @ KeyGroup # map Chr s) xs = Some (g, rest)"
  shows "\<exists>k. k \<noteq> [] \<and> list_all is_key_char k \<and> g = Some k \<and> xs = p @ k @ s @ rest"
proof -
  from match_literal_shape [OF assms] obtain t where
    t: "xs = p @ t" and "lazy_key (map Chr s) [] t = Some (g, rest)" by auto
  from lazy_key_shape [OF this(2)] t show ?thesis by auto
qed

lemma lazy_key_extend:
  "lazy_key (map Chr s) acc xs = Some (g, rest) \<Longrightarrow>
   lazy_key (map Chr s) acc (xs @ t) = Some (g, rest @ t)"
proof (induction xs arbitrary: acc)
  case Nil
  then show ?case by simp
next
  case (Cons x xs)
  from Cons.prems have x: "is_key_char x" by (auto split: if_splits)
  show ?case
  proof (cases "match_atoms (map Chr s) xs")
    case None
    with Cons.prems x have rec: "lazy_key (map Chr s) (acc @ [x]) xs = Some (g, rest)" by simp
    from lazy_key_shape [OF rec] have "length s \<le> length xs" by auto
    with None have "match_atoms (map Chr s) (xs @ t) = None" by (rule match_literal_extend)
    with Cons.IH [OF rec] x show ?thesis by simp
  next
    case (Some r)
    obtain g' rest' where r: "r = (g', rest')" by (cases r)
    with Some have "xs = s @ rest'" by (simp add: match_literal_only)
    then have "match_atoms (map Chr s) (xs @ t) = Some (None, rest' @ t)"
      by (simp add: match_literal_exact)
    with Some r Cons.prems x show ?thesis by simp
  qed
qed

lemma match_token_extend:
  assumes "match_atoms (map Chr p @ KeyGroup # map Chr s) xs = Some (g, rest)"
  shows "match_atoms (map Chr p @ KeyGroup # map Chr s) (xs @ t) = Some (g, rest @ t)"
proof -
  from match_literal_shape [OF assms] obtain u where
    u: "xs = p @ u" and "lazy_key (map Chr s) [] u = Some (g, rest)" by auto
  from lazy_key_extend [OF this(2), of t] u show ?thesis
    by (simp add: match_literal_prefix)
qed


text \<open>
  The missing-key law where it holds: a key that is neither in the table nor a member of
  \<open>Object.prototype\<close> is replaced by \<open>undefined\<close>.
\<close>

lemma missing_key_pass:
  assumes "s \<noteq> []" and "\<not> is_key_char (hd s)" and "k \<noteq> []" and "list_all is_key_char k"
    and "map_of t k = None" and "object_prototype k = None"
  shows "replace_pass (map Chr p @ KeyGroup # map Chr s) (Some (Loaded t)) (p @ k @ s)
           = Inr (True, ''undefined'')"
proof -
  have "pieces (map Chr p @ KeyGroup # map Chr s) (p @ k @ s @ []) = [Tok (p @ k @ s) (Some k)]"
    using pieces_token [OF assms(1-4), of p "[]"] by (simp add: match_token_empty)
  with assms(5,6) show ?thesis by (simp add: replace_pass_def find_all_def get_def)
qed

lemmas registry_defs =
  unloaded_registry_def example_registry_def example_document_def example_table_def
  Let_def load_def initialize_def init_def elem_def compile_def

lemmas resolve_defs =
  localize_def replace_def replace_pass_def find_all_def is_key_char_def get_def
  object_prototype_def native_function_def

lemma flatten_example: "flatten example_document = example_table"
  by (simp add: example_document_def example_table_def flatten.simps assign_def)

lemma flatten_splice: "flatten splice_document = splice_table"
  by (simp add: splice_document_def splice_table_def flatten.simps assign_def)

lemma localize_greet:
  "localize example_registry (Str ''#{greet}'') = Some (Inr (Str ''Hi, I'm Harold''))"
  by (simp add: registry_defs resolve_defs flatten_example [unfolded registry_defs]
      replace_loop.simps)

lemma localize_text_test:
  "localize example_registry (Str ''#{text.test}'') = Some (Inr (Str ''This is a test''))"
  by (simp add: registry_defs resolve_defs flatten_example [unfolded registry_defs]
      replace_loop.simps)




lemma example_acyclic: "acyclic_references (regex example_registry) example_table"
proof -
  have "references (regex example_registry) example_table = [(''greet'', ''hero'')]"
    by (simp add: references_def captured_keys_def registry_defs is_key_char_def)
  moreover have "acyclic ({} :: (string \<times> string) set)" by (simp add: acyclic_def)
  ultimately show ?thesis by (simp add: acyclic_references_def)
qed

lemma example_closed:
  "list_all (\<lambda>(k, v). closed_value CHR ''#'' (regex example_registry) (to_string v)) example_table"
  by (simp add: closed_value_def registry_defs is_key_char_def)

section \<open>Termination of the loop\<close>

text \<open>
  Let the pattern start with a marker: a character outside the key class that occurs
  nowhere else in the escape code. Then a match holds exactly one marker, so matches
  cannot overlap, and a token that sits whole inside a value is matched as it is wherever
  the value is pasted. One turn of the loop replaces every token by a value whose tokens
  weigh less, which bounds the number of turns.
\<close>

lemma cost_no_marker: "c \<notin> set xs \<Longrightarrow> cost w W c re (xs @ r) = cost w W c re r"
  by (induction xs) auto

lemma key_chars_no_marker: "\<not> is_key_char c \<Longrightarrow> list_all is_key_char k \<Longrightarrow> c \<notin> set k"
  by (auto simp: list_all_iff)

lemma cost_pieces:
  assumes "re = map Chr (c # p) @ KeyGroup # map Chr s"
    and "\<not> is_key_char c" and "c \<notin> set p" and "c \<notin> set s"
  shows "cost w W c re xs = sum_list (map (pcost w W c) (pieces re xs))"
  using assms
proof (induction re xs rule: pieces.induct)
  case (1 re)
  then show ?case by (cases "match_atoms re []") auto
next
  case (2 re x xs)
  note re = \<open>re = map Chr (c # p) @ KeyGroup # map Chr s\<close>
  show ?case
  proof (cases "match_atoms re (x # xs)")
    case None
    from "2.IH"(1) [OF None "2.prems"]
    have "cost w W c re xs = sum_list (map (pcost w W c) (pieces re xs))" .
    with None show ?thesis by auto
  next
    case (Some r)
    obtain g rest where r: "r = (g, rest)" by (cases r)
    from match_token_shape [OF Some [unfolded r re]] obtain k where
      k: "list_all is_key_char k" "g = Some k" and
      whole: "x # xs = (c # p) @ k @ s @ rest" by auto
    from whole have x: "x = c" and xs: "xs = p @ k @ s @ rest" by simp_all
    from whole have shorter: "length rest < length (x # xs)"
      using arg_cong [OF whole, of length] by simp
    from "2.IH"(2) [OF Some r [symmetric] shorter "2.prems"]
    have IH: "cost w W c re rest = sum_list (map (pcost w W c) (pieces re rest))" .
    have "c \<notin> set (p @ k @ s)"
      using "2.prems" k(1) by (auto dest: key_chars_no_marker)
    then have "cost w W c re ((p @ k @ s) @ rest) = cost w W c re rest"
      by (rule cost_no_marker)
    with xs have tail: "cost w W c re xs = cost w W c re rest" by simp
    from Some r k(2) x have head: "cost w W c re (x # xs) = w k + cost w W c re xs" by simp
    from Some r shorter k(2)
    have "sum_list (map (pcost w W c) (pieces re (x # xs)))
            = w k + sum_list (map (pcost w W c) (pieces re rest))" by simp
    with head tail IH show ?thesis by simp
  qed
qed

lemma closed_value_cost:
  assumes "re = map Chr (c # p) @ KeyGroup # map Chr s"
    and "\<not> is_key_char c" and "c \<notin> set p" and "c \<notin> set s"
  shows "closed_value c re v \<Longrightarrow> cost w W c re (v @ r) = cost w W c re v + cost w W c re r"
  using assms
proof (induction re v rule: pieces.induct)
  case (1 re)
  then show ?case by simp
next
  case (2 re x xs)
  note re = \<open>re = map Chr (c # p) @ KeyGroup # map Chr s\<close>
  note closed = \<open>closed_value c re (x # xs)\<close>
  note side = "2.prems"(2-)
  show ?case
  proof (cases "match_atoms re (x # xs)")
    case None
    with closed have x: "x \<noteq> c" and rest: "closed_value c re xs"
      by (simp_all add: closed_value_def split: if_splits)
    from "2.IH"(1) [OF None rest side]
    have "cost w W c re (xs @ r) = cost w W c re xs + cost w W c re r" .
    with x show ?thesis by simp
  next
    case (Some q)
    obtain g rest where q: "q = (g, rest)" by (cases q)
    from match_token_shape [OF Some [unfolded q re]] obtain k where
      k: "list_all is_key_char k" "g = Some k" and
      whole: "x # xs = (c # p) @ k @ s @ rest" by auto
    from whole have x: "x = c" and xs: "xs = p @ k @ s @ rest" by simp_all
    from whole have shorter: "length rest < length (x # xs)"
      using arg_cong [OF whole, of length] by simp
    from closed Some q shorter have "closed_value c re rest"
      by (simp add: closed_value_def)
    from "2.IH"(2) [OF Some q [symmetric] shorter this side]
    have IH: "cost w W c re (rest @ r) = cost w W c re rest + cost w W c re r" .
    have nm: "c \<notin> set (p @ k @ s)"
      using side k(1) by (auto dest: key_chars_no_marker)
    from cost_no_marker [OF nm, of w W re rest] xs
    have tail: "cost w W c re xs = cost w W c re rest" by simp
    from cost_no_marker [OF nm, of w W re "rest @ r"] xs
    have tail': "cost w W c re (xs @ r) = cost w W c re (rest @ r)" by simp
    from Some q k(2) x have head: "cost w W c re (x # xs) = w k + cost w W c re xs" by simp
    from Some q have "match_atoms re ((x # xs) @ r) = Some (g, rest @ r)"
      unfolding re by (simp only: match_token_extend)
    with k(2) x have head': "cost w W c re ((x # xs) @ r) = w k + cost w W c re (xs @ r)"
      by simp
    from head head' tail tail' IH show ?thesis by simp
  qed
qed

lemma cost_Cons_le:
  assumes "\<And>k. w k \<le> W"
  shows "cost w W c re (x # r) \<le> (if x = c then W else 0) + cost w W c re r"
  using assms by (auto split: option.splits prod.splits)

lemma substitute_loaded: "\<exists>r. substitute (Some (Loaded t)) off ps = Inr r"
proof (induction ps arbitrary: off)
  case Nil
  then show ?case by simp
next
  case (Cons pc ps)
  show ?case
  proof (cases pc)
    case (Lit x)
    from Cons [of "Suc off"] obtain r where "substitute (Some (Loaded t)) (Suc off) ps = Inr r" ..
    with Lit show ?thesis by simp
  next
    case (Tok m g)
    from Cons [of "off + length m"] obtain r where
      "substitute (Some (Loaded t)) (off + length m) ps = Inr r" ..
    with Tok show ?thesis by simp
  qed
qed

lemma substitute_cost:
  assumes re: "re = map Chr (c # p) @ KeyGroup # map Chr s"
    and side: "\<not> is_key_char c" "c \<notin> set p" "c \<notin> set s"
    and closed: "\<And>k. closed_value c re (to_string (get t k))"
    and less: "\<And>k. cost w W c re (to_string (get t k)) < w k"
    and bound: "\<And>k. w k \<le> W"
  shows "substitute (Some (Loaded t)) off ps = Inr r \<Longrightarrow>
         cost w W c re r + length (filter is_tok ps) \<le> sum_list (map (pcost w W c) ps)"
proof (induction ps arbitrary: off r)
  case Nil
  then show ?case by simp
next
  case (Cons pc ps)
  show ?case
  proof (cases pc)
    case (Lit x)
    from substitute_loaded obtain r' where
      r': "substitute (Some (Loaded t)) (Suc off) ps = Inr r'" by blast
    with Cons.prems Lit have r: "r = x # r'" by simp
    from cost_Cons_le [of w W c re x r', OF bound]
    have "cost w W c re (x # r') \<le> (if x = c then W else 0) + cost w W c re r'" .
    with Cons.IH [OF r'] Lit r show ?thesis by simp
  next
    case (Tok m g)
    let ?k = "case g of Some k \<Rightarrow> k | None \<Rightarrow> dec off"
    let ?v = "to_string (get t ?k)"
    from substitute_loaded obtain r' where
      r': "substitute (Some (Loaded t)) (off + length m) ps = Inr r'" by blast
    with Cons.prems Tok have r: "r = ?v @ r'" by simp
    from closed_value_cost [OF re side closed [of ?k], where w = w and W = W and r = r']
    have split: "cost w W c re (?v @ r') = cost w W c re ?v + cost w W c re r'" .
    have "w ?k \<le> pcost w W c (Tok m g)" using bound by (cases g) simp_all
    with less [of ?k] have "cost w W c re ?v + 1 \<le> pcost w W c (Tok m g)" by simp
    with Cons.IH [OF r'] Tok r split show ?thesis by simp
  qed
qed

lemma replace_loop_returns:
  assumes re: "re = map Chr (c # p) @ KeyGroup # map Chr s"
    and side: "\<not> is_key_char c" "c \<notin> set p" "c \<notin> set s"
    and closed: "\<And>k. closed_value c re (to_string (get t k))"
    and less: "\<And>k. cost w W c re (to_string (get t k)) < w k"
    and bound: "\<And>k. w k \<le> W"
  shows "\<exists>r. replace_loop re (Some (Loaded t)) xs = Some (Inr r)"
proof (induction "cost w W c re xs" arbitrary: xs rule: less_induct)
  case less
  from substitute_loaded obtain r' where
    r': "substitute (Some (Loaded t)) 0 (pieces re xs) = Inr r'" by blast
  show ?case
  proof (cases "find_all re xs = []")
    case True
    then show ?thesis by (simp add: replace_loop_no_match)
  next
    case False
    then have "0 < length (filter is_tok (pieces re xs))" by (simp add: find_all_def)
    with substitute_cost [OF re side closed assms(6) bound r']
    have "cost w W c re r' < sum_list (map (pcost w W c) (pieces re xs))" by linarith
    then have "cost w W c re r' < cost w W c re xs"
      by (simp add: cost_pieces [OF re side])
    from less.hyps [OF this] obtain r where
      "replace_loop re (Some (Loaded t)) r' = Some (Inr r)" ..
    moreover have "replace_loop re (Some (Loaded t)) xs = replace_loop re (Some (Loaded t)) r'"
      using False r' by (subst replace_loop.simps) (simp add: replace_pass_def)
    ultimately show ?thesis by simp
  qed
qed

lemma inherited_chars:
  assumes "map_of t k = None" and "x \<in> set (to_string (get t k))"
  shows "is_key_char x \<or> x \<in> set '' (){}[]''"
proof -
  have names: "list_all is_key_char n"
    if "List.member [''hasOwnProperty'', ''isPrototypeOf'', ''propertyIsEnumerable'',
          ''toLocaleString'', ''toString'', ''valueOf'', ''__defineGetter__'',
          ''__defineSetter__'', ''__lookupGetter__'', ''__lookupSetter__''] n" for n
    using that by (auto simp: is_key_char_def)
  have fixed: "list_all (\<lambda>x. is_key_char x \<or> x \<in> set '' (){}[]'')
                 (''function '' @ ''Object'' @ ''() { [native code] }'')"
    "list_all (\<lambda>x. is_key_char x \<or> x \<in> set '' (){}[]'') ''[object Object]''"
    "list_all (\<lambda>x. is_key_char x \<or> x \<in> set '' (){}[]'') ''undefined''"
    "list_all (\<lambda>x. is_key_char x \<or> x \<in> set '' (){}[]'') ''function ''"
    "list_all (\<lambda>x. is_key_char x \<or> x \<in> set '' (){}[]'') ''() { [native code] }''"
    by (simp_all add: is_key_char_def)
  have "list_all (\<lambda>x. is_key_char x \<or> x \<in> set '' (){}[]'') (to_string (get t k))"
  proof (cases "object_prototype k")
    case None
    with assms(1) fixed(3) show ?thesis by (simp add: get_def)
  next
    case (Some v)
    then consider "v = native_function ''Object''" | "v = Native ''[object Object]''"
      | "v = native_function k" and "List.member [''hasOwnProperty'', ''isPrototypeOf'',
          ''propertyIsEnumerable'', ''toLocaleString'', ''toString'', ''valueOf'',
          ''__defineGetter__'', ''__defineSetter__'', ''__lookupGetter__'',
          ''__lookupSetter__''] k"
      by (auto simp: object_prototype_def split: if_splits)
    then show ?thesis
    proof cases
      case 1
      with assms(1) Some fixed(1) show ?thesis by (simp add: get_def native_function_def)
    next
      case 2
      with assms(1) Some fixed(2) show ?thesis by (simp add: get_def)
    next
      case 3
      from names [OF 3(2)] have "list_all (\<lambda>x. is_key_char x \<or> x \<in> set '' (){}[]'') k"
        by (auto simp: list_all_iff)
      with assms(1) Some 3(1) fixed(4,5) show ?thesis
        by (simp add: get_def native_function_def del: set_simps list.set)
    qed
  qed
  with assms(2) show ?thesis by (simp add: list_all_iff)
qed

lemma pieces_no_marker:
  assumes "re = map Chr (c # p) @ KeyGroup # map Chr s"
  shows "c \<notin> set v \<Longrightarrow> pieces re v = map Lit v"
proof (induction v)
  case Nil
  show ?case using assms by simp
next
  case (Cons x v)
  then have "x \<noteq> c" by auto
  then have "match_atoms re (x # v) = None" using assms by simp
  with Cons show ?case by simp
qed

lemma pieces_tok_key:
  assumes "re = map Chr p @ KeyGroup # map Chr s"
  shows "Tok m g \<in> set (pieces re v) \<Longrightarrow> \<exists>k. g = Some k"
  using assms
proof (induction re v rule: pieces.induct)
  case (1 re)
  then show ?case by (cases p) auto
next
  case (2 re x xs)
  note re = \<open>re = map Chr p @ KeyGroup # map Chr s\<close>
  show ?case
  proof (cases "match_atoms re (x # xs)")
    case None
    with "2.prems"(1) have "Tok m g \<in> set (pieces re xs)" by simp
    from "2.IH"(1) [OF None this re] show ?thesis .
  next
    case (Some q)
    obtain g' rest where q: "q = (g', rest)" by (cases q)
    from match_token_shape [OF Some [unfolded q re]] obtain k where
      k: "g' = Some k" and whole: "x # xs = p @ k @ s @ rest" and ne: "k \<noteq> []" by auto
    from whole ne have shorter: "length rest < length (x # xs)"
      using arg_cong [OF whole, of length] by simp
    from "2.prems"(1) Some q shorter
    consider "g = g'" | "Tok m g \<in> set (pieces re rest)" by auto
    then show ?thesis
    proof cases
      case 1
      with k show ?thesis by simp
    next
      case 2
      from "2.IH"(2) [OF Some q [symmetric] shorter 2 re] show ?thesis .
    qed
  qed
qed

lemma pcost_captured:
  assumes "\<And>m g. Tok m g \<in> set ps \<Longrightarrow> \<exists>k. g = Some k" and "filter (stray c) ps = []"
  shows "sum_list (map (pcost w W c) ps) = sum_list (map w (concat (map captured ps)))"
  using assms
proof (induction ps)
  case Nil
  then show ?case by simp
next
  case (Cons pc ps)
  from Cons.prems have IH: "sum_list (map (pcost w W c) ps) = sum_list (map w (concat (map captured ps)))"
    by (intro Cons.IH) (auto split: if_splits)
  show ?case
  proof (cases pc)
    case (Lit x)
    with Cons.prems(2) have "x \<noteq> c" by (auto split: if_splits)
    with Lit IH show ?thesis by simp
  next
    case (Tok m g)
    with Cons.prems(1) obtain k where "g = Some k" by auto
    with Tok IH show ?thesis by simp
  qed
qed

lemma closed_cost_captured:
  assumes re: "re = map Chr (c # p) @ KeyGroup # map Chr s"
    and side: "\<not> is_key_char c" "c \<notin> set p" "c \<notin> set s"
    and "closed_value c re v"
  shows "cost w W c re v = sum_list (map w (captured_keys re v))"
proof -
  have "\<And>m g. Tok m g \<in> set (pieces re v) \<Longrightarrow> \<exists>k. g = Some k"
    using pieces_tok_key [of re "c # p" s] re by simp
  from pcost_captured [OF this] assms(5) show ?thesis
    by (simp add: cost_pieces [OF re side] closed_value_def captured_keys_def)
qed

lemma references_edge:
  assumes "map_of t k = Some v" and "k' \<in> set (captured_keys re (to_string v))"
  shows "(k, k') \<in> set (references re t)"
proof -
  from assms(1) have "(k, v) \<in> set t" by (rule map_of_SomeD)
  with assms(2) show ?thesis by (force simp: references_def)
qed

lemma acyclic_table_returns:
  assumes re: "re = map Chr (c # p) @ KeyGroup # map Chr s"
    and side: "\<not> is_key_char c" "c \<notin> set p" "c \<notin> set s"
    and inh: "c \<notin> set '' (){}[]''"
    and acyc: "acyclic_references re t"
    and closed: "list_all (\<lambda>(k, v). closed_value c re (to_string v)) t"
  shows "\<exists>r. replace_loop re (Some (Loaded t)) xs = Some (Inr r)"
proof -
  let ?val = "\<lambda>k. to_string (get t k)"
  let ?succs = "\<lambda>k. captured_keys re (?val k)"
  let ?R = "(set (references re t))\<inverse>"
  define w where "w = wfrec ?R (\<lambda>f k. Suc (sum_list (map f (?succs k))))"
  define W where "W = Suc (sum_list (map (\<lambda>kv. w (fst kv)) t))"
  have absent: "c \<notin> set (?val k)" if "map_of t k = None" for k
    using inherited_chars [OF that] side(1) inh by auto
  have no_succs: "?succs k = []" if "map_of t k = None" for k
    using pieces_no_marker [OF re absent [OF that]]
    by (simp add: captured_keys_def)
  have edge: "(k', k) \<in> ?R" if "k' \<in> set (?succs k)" for k k'
  proof (cases "map_of t k")
    case None
    with that no_succs show ?thesis by simp
  next
    case (Some v)
    then have "get t k = v" by (simp add: get_def)
    with that references_edge [OF Some] show ?thesis by simp
  qed
  have "wf ?R"
    using acyc by (intro finite_acyclic_wf_converse) (simp_all add: acyclic_references_def)
  then have "w k = Suc (sum_list (map (cut w ?R k) (?succs k)))" for k
    unfolding w_def by (rule wfrec)
  moreover have "map (cut w ?R k) (?succs k) = map w (?succs k)" for k
    by (rule map_cong [OF refl]) (rule cut_apply, rule edge)
  ultimately have w: "w k = Suc (sum_list (map w (?succs k)))" for k by simp
  have cl: "closed_value c re (?val k)" for k
  proof (cases "map_of t k")
    case None
    from pieces_no_marker [OF re absent [OF None]] absent [OF None]
    show ?thesis by (auto simp: closed_value_def filter_empty_conv)
  next
    case (Some v)
    then have "(k, v) \<in> set t" and "get t k = v" by (auto simp: get_def dest: map_of_SomeD)
    with closed show ?thesis by (auto simp: list_all_iff)
  qed
  have less: "cost w W c re (?val k) < w k" for k
    using closed_cost_captured [OF re side cl [of k], where w = w and W = W] w [of k] by simp
  have bound: "w k \<le> W" for k
  proof (cases "map_of t k")
    case None
    with no_succs w [of k] show ?thesis by (simp add: W_def)
  next
    case (Some v)
    then have "(k, v) \<in> set t" by (rule map_of_SomeD)
    then have "w k \<in> set (map (\<lambda>kv. w (fst kv)) t)" by force
    then have "w k \<le> sum_list (map (\<lambda>kv. w (fst kv)) t)"
      by (rule member_le_sum_list) simp
    then show ?thesis by (simp add: W_def)
  qed
  from replace_loop_returns [OF re side cl less bound] show ?thesis .
qed

text \<open>What the loop returns, when it returns.\<close>

lemma replace_loop_result:
  assumes "replace_loop re d s = Some res"
  shows "case res of Inl e \<Rightarrow> True | Inr r \<Rightarrow> find_all re r = []"
  using assms
proof (rule replace_loop.raw_induct [rotated,
      where P = "\<lambda>re d s res. case res of Inl e \<Rightarrow> True | Inr r \<Rightarrow> find_all re r = []"])
  fix loop :: "atom list \<Rightarrow> slot option \<Rightarrow> string \<Rightarrow> (error + string) option"
  fix re d s res
  assume IH: "\<And>re d s res. loop re d s = Some res \<Longrightarrow>
                (case res of Inl e \<Rightarrow> True | Inr r \<Rightarrow> find_all re r = [])"
    and body: "(case replace_pass re d s of Inl e \<Rightarrow> Some (Inl e)
                | Inr (f, r') \<Rightarrow> if f then loop re d r' else Some (Inr r')) = Some res"
  show "case res of Inl e \<Rightarrow> True | Inr r \<Rightarrow> find_all re r = []"
  proof (cases "replace_pass re d s")
    case (Inl e)
    with body show ?thesis by auto
  next
    case (Inr p)
    obtain f r' where p: "p = (f, r')" by (cases p)
    show ?thesis
    proof (cases f)
      case True
      with body Inr p have "loop re d r' = Some res" by simp
      then show ?thesis by (rule IH)
    next
      case False
      with body Inr p have res: "res = Inr r'" by simp
      from False Inr p have nm: "find_all re s = []"
        by (auto simp: replace_pass_def split: sum.splits)
      then have "substitute d 0 (pieces re s) = Inr s"
        by (simp add: find_all_def substitute_no_tok)
      with Inr p have "r' = s" by (simp add: replace_pass_def)
      with nm res show ?thesis by simp
    qed
  qed
qed

lemma replace_result_fixed:
  assumes "replace_loop re d x = Some (Inr r)"
  shows "find_all re r = [] \<and> replace_loop re d r = Some (Inr r)"
  using replace_loop_result [OF assms] by (simp add: replace_loop_no_match)

lemma replace_loop_loaded:
  assumes "replace_loop re d x = Some res"
  shows "d = Some (Loaded t) \<longrightarrow> (\<exists>r. res = Inr r)"
  using assms
proof (rule replace_loop.raw_induct [rotated,
      where P = "\<lambda>re d x res. d = Some (Loaded t) \<longrightarrow> (\<exists>r. res = Inr r)"])
  fix loop :: "atom list \<Rightarrow> slot option \<Rightarrow> string \<Rightarrow> (error + string) option"
  fix re d x res
  assume IH: "\<And>re d x res. loop re d x = Some res \<Longrightarrow>
                d = Some (Loaded t) \<longrightarrow> (\<exists>r. res = Inr r)"
    and body: "(case replace_pass re d x of Inl e \<Rightarrow> Some (Inl e)
                | Inr (f, r') \<Rightarrow> if f then loop re d r' else Some (Inr r')) = Some res"
  show "d = Some (Loaded t) \<longrightarrow> (\<exists>r. res = Inr r)"
  proof
    assume d: "d = Some (Loaded t)"
    from substitute_loaded obtain r' where
      "substitute (Some (Loaded t)) 0 (pieces re x) = Inr r'" by blast
    with d have pass: "replace_pass re d x = Inr (find_all re x \<noteq> [], r')"
      by (simp add: replace_pass_def)
    show "\<exists>r. res = Inr r"
    proof (cases "find_all re x = []")
      case True
      with body pass show ?thesis by auto
    next
      case False
      with body pass have "loop re d r' = Some res" by simp
      from IH [OF this] d show ?thesis by simp
    qed
  qed
qed

text \<open>The table of \<open>splice_document\<close>: an acyclic graph and a loop that never ends.\<close>

lemma splice_acyclic: "acyclic_references (regex splice_registry) splice_table"
proof -
  have "references (regex splice_registry) splice_table = [(''b'', ''a'')]"
    by (simp add: references_def captured_keys_def splice_registry_def splice_table_def
        registry_defs is_key_char_def)
  moreover have "acyclic ({} :: (string \<times> string) set)" by (simp add: acyclic_def)
  ultimately show ?thesis by (simp add: acyclic_references_def)
qed

lemma splice_data: "data splice_registry ''en'' = Some (Loaded splice_table)"
  by (simp add: splice_registry_def load_def flatten_splice)

lemma splice_pass_b:
  "replace_pass (regex splice_registry) (Some (Loaded splice_table)) ''#{b}''
     = Inr (True, ''#{a}b}'')"
  by (simp add: splice_registry_def splice_table_def registry_defs resolve_defs)

lemma splice_pass_a:
  "replace_pass (regex splice_registry) (Some (Loaded splice_table)) ''#{a}b}''
     = Inr (True, ''#{b}'')"
  by (simp add: splice_registry_def splice_table_def registry_defs resolve_defs)

lemma splice_loop:
  assumes "replace_loop re d s = Some res"
  shows "\<not> (re = regex splice_registry \<and> d = Some (Loaded splice_table)
            \<and> (s = ''#{b}'' \<or> s = ''#{a}b}''))"
  using assms
proof (rule replace_loop.raw_induct [rotated,
      where P = "\<lambda>re d s res. \<not> (re = regex splice_registry \<and> d = Some (Loaded splice_table)
                                 \<and> (s = ''#{b}'' \<or> s = ''#{a}b}''))"])
  fix loop :: "atom list \<Rightarrow> slot option \<Rightarrow> string \<Rightarrow> (error + string) option"
  fix re d s res
  assume IH: "\<And>re d s res. loop re d s = Some res \<Longrightarrow>
                \<not> (re = regex splice_registry \<and> d = Some (Loaded splice_table)
                   \<and> (s = ''#{b}'' \<or> s = ''#{a}b}''))"
    and body: "(case replace_pass re d s of Inl e \<Rightarrow> Some (Inl e)
                | Inr (f, r') \<Rightarrow> if f then loop re d r' else Some (Inr r')) = Some res"
  show "\<not> (re = regex splice_registry \<and> d = Some (Loaded splice_table)
           \<and> (s = ''#{b}'' \<or> s = ''#{a}b}''))"
  proof
    assume a: "re = regex splice_registry \<and> d = Some (Loaded splice_table)
               \<and> (s = ''#{b}'' \<or> s = ''#{a}b}'')"
    then consider "s = ''#{b}''" | "s = ''#{a}b}''" by blast
    then show False
    proof cases
      case 1
      with a body
      have "loop (regex splice_registry) (Some (Loaded splice_table)) ''#{a}b}'' = Some res"
        by (simp add: splice_pass_b)
      from IH [OF this] show False by simp
    next
      case 2
      with a body
      have "loop (regex splice_registry) (Some (Loaded splice_table)) ''#{b}'' = Some res"
        by (simp add: splice_pass_a)
      from IH [OF this] show False by simp
    qed
  qed
qed

lemma splice_diverges:
  "replace_loop (regex splice_registry) (Some (Loaded splice_table)) ''#{b}'' = None"
proof (cases "replace_loop (regex splice_registry) (Some (Loaded splice_table)) ''#{b}''")
  case (Some res)
  from splice_loop [OF this] show ?thesis by simp
qed simp

section \<open>Resolving in the plain cases\<close>

text \<open>
  C9. For the absent inputs \<open>undefined\<close> and \<open>null\<close>, \<open>_replace\<close> returns its input
  unchanged, whatever the current language, the loaded tables and the pattern are.
\<close>

theorem replace_absent_input:
  "localize st Undefined = Some (Inr Undefined) \<and> localize st Null = Some (Inr Null)"
  by (simp add: localize_def replace_def)

text \<open>
  C7. A string in which the pattern finds no match is returned unchanged, in every state
  of the registry.
\<close>

theorem replace_token_free:
  assumes "find_all (regex st) s = []"
  shows "localize st (Str s) = Some (Inr (Str s))"
  using assms by (simp add: localize_def replace_def replace_loop_no_match)

theorem replace_token_free_witness:
  "find_all (regex example_registry) ''Hello, world'' = []
   \<and> localize example_registry (Str ''Hello, world'') = Some (Inr (Str ''Hello, world''))"
proof -
  have h: "find_all (regex example_registry) ''Hello, world'' = []"
    by (simp add: registry_defs find_all_def)
  from replace_token_free [OF h] h show ?thesis by simp
qed

text \<open>
  C5. With the escape code \<open>#{{key}}\<close> and the example document loaded for the current
  language, the document flattens to the three entries \<open>text.test\<close>, \<open>hero\<close> and
  \<open>greet\<close>, \<open>#{greet}\<close> resolves to \<open>Hi, I'm Harold\<close> (the nested token is
  resolved in a second turn of the loop), and \<open>#{text.test}\<close> to \<open>This is a test\<close>.
\<close>

theorem example_end_to_end:
  "regex example_registry = [Chr CHR ''#'', Chr CHR ''{'', KeyGroup, Chr CHR ''}'']
   \<and> data example_registry ''en'' = Some (Loaded example_table)
   \<and> flatten example_document = example_table
   \<and> localize example_registry (Str ''#{greet}'') = Some (Inr (Str ''Hi, I'm Harold''))
   \<and> localize example_registry (Str ''#{text.test}'') = Some (Inr (Str ''This is a test''))"
  by (simp add: flatten_example localize_greet localize_text_test)
    (simp add: registry_defs flatten_example [unfolded registry_defs])




text \<open>
  C2 (the code at the failing input). The tables are built from the object literal
  \<open>{}\<close>, so a key that is in no language file but names a member of
  \<open>Object.prototype\<close> is found all the same: \<open>#{constructor}\<close> resolves to the text of
  the built-in function, not to \<open>undefined\<close>.
\<close>

theorem replace_inherited_key:
  "map_of (flatten example_document) ''constructor'' = None
   \<and> localize example_registry (Str ''#{constructor}'')
       = Some (Inr (Str ''function Object() { [native code] }''))"
proof -
  have absent: "map_of (flatten example_document) ''constructor'' = None"
    by (simp add: flatten_example example_table_def)
  have "localize example_registry (Str ''#{constructor}'')
          = Some (Inr (Str ''function Object() { [native code] }''))"
    by (simp add: registry_defs resolve_defs flatten_example [unfolded registry_defs]
        replace_loop.simps)
  with absent show ?thesis by simp
qed

section \<open>The fixpoint loop\<close>

text \<open>
  C8 (as amended). For every table and every string: whenever resolving the string returns
  a string, the pattern finds no match in the result and resolving the result again
  returns it unchanged. Resolving does return a string for every table whose key-reference
  graph is acyclic, provided that the escape code starts with a marker (a character that is
  not a word character or a dot and occurs neither in the rest of the escape code nor in
  the texts of the built-in members, as \<open>#\<close> in the default escape code) and that the
  values of the table are closed (every marker in a value starts a complete token inside
  that value).
\<close>

theorem resolve_acyclic_fixpoint:
  "(\<forall>r. localize st (Str x) = Some (Inr (Str r)) \<longrightarrow>
         find_all (regex st) r = [] \<and> localize st (Str r) = Some (Inr (Str r)))
   \<and> (regex st = compile template \<and> split_key template = Some (c # p, s)
       \<and> \<not> is_key_char c \<and> c \<notin> set p \<and> c \<notin> set s \<and> c \<notin> set '' (){}[]''
       \<and> data st (to_string (lang st)) = Some (Loaded t)
       \<and> acyclic_references (regex st) t
       \<and> list_all (\<lambda>(k, v). closed_value c (regex st) (to_string v)) t
       \<longrightarrow> (\<exists>r. localize st (Str x) = Some (Inr (Str r))))"
proof (intro conjI allI impI)
  fix r assume "localize st (Str x) = Some (Inr (Str r))"
  then obtain res where res: "replace_loop (regex st) (data st (to_string (lang st))) x = Some res"
    and "map_sum id Str res = Inr (Str r)"
    by (auto simp: localize_def replace_def)
  then have "replace_loop (regex st) (data st (to_string (lang st))) x = Some (Inr r)"
    by (cases res) simp_all
  from replace_result_fixed [OF this]
  show "find_all (regex st) r = []" and "localize st (Str r) = Some (Inr (Str r))"
    by (simp_all add: localize_def replace_def)
next
  assume a: "regex st = compile template \<and> split_key template = Some (c # p, s)
       \<and> \<not> is_key_char c \<and> c \<notin> set p \<and> c \<notin> set s \<and> c \<notin> set '' (){}[]''
       \<and> data st (to_string (lang st)) = Some (Loaded t)
       \<and> acyclic_references (regex st) t
       \<and> list_all (\<lambda>(k, v). closed_value c (regex st) (to_string v)) t"
  then have re: "regex st = map Chr (c # p) @ KeyGroup # map Chr s"
    by (simp add: compile_def)
  from a have side: "\<not> is_key_char c" "c \<notin> set p" "c \<notin> set s" "c \<notin> set '' (){}[]''"
    "acyclic_references (regex st) t"
    "list_all (\<lambda>(k, v). closed_value c (regex st) (to_string v)) t"
    and tbl: "data st (to_string (lang st)) = Some (Loaded t)" by blast+
  from acyclic_table_returns [OF re side, of x] obtain r where
    "replace_loop (regex st) (Some (Loaded t)) x = Some (Inr r)" by blast
  with tbl show "\<exists>r. localize st (Str x) = Some (Inr (Str r))"
    by (simp add: localize_def replace_def)
qed

theorem resolve_acyclic_fixpoint_witness:
  "regex example_registry = compile ''#{{key}}''
   \<and> split_key ''#{{key}}'' = Some (CHR ''#'' # ''{'', ''}'')
   \<and> \<not> is_key_char CHR ''#'' \<and> CHR ''#'' \<notin> set ''{'' \<and> CHR ''#'' \<notin> set ''}''
   \<and> CHR ''#'' \<notin> set '' (){}[]''
   \<and> data example_registry (to_string (lang example_registry)) = Some (Loaded example_table)
   \<and> acyclic_references (regex example_registry) example_table
   \<and> list_all (\<lambda>(k, v). closed_value CHR ''#'' (regex example_registry) (to_string v))
         example_table
   \<and> localize example_registry (Str ''#{greet}'') = Some (Inr (Str ''Hi, I'm Harold''))
   \<and> find_all (regex example_registry) ''Hi, I'm Harold'' = []
   \<and> localize example_registry (Str ''Hi, I'm Harold'') = Some (Inr (Str ''Hi, I'm Harold''))"
proof -
  have h1: "regex example_registry = compile ''#{{key}}''"
    by (simp add: example_registry_def unloaded_registry_def load_def initialize_def init_def
        Let_def)
  have h2: "split_key ''#{{key}}'' = Some (CHR ''#'' # ''{'', ''}'')" by simp
  have h3: "\<not> is_key_char CHR ''#''" by (simp add: is_key_char_def)
  have h4: "CHR ''#'' \<notin> set ''{''" and h5: "CHR ''#'' \<notin> set ''}''"
    and h6: "CHR ''#'' \<notin> set '' (){}[]''" by simp_all
  have h7: "data example_registry (to_string (lang example_registry))
              = Some (Loaded example_table)"
    by (simp add: example_registry_def unloaded_registry_def load_def initialize_def init_def
        elem_def flatten_example Let_def)
  note h8 = example_acyclic and h9 = example_closed
  note inst = resolve_acyclic_fixpoint [where st = example_registry and x = "''#{greet}''"
      and template = "''#{{key}}''" and c = "CHR ''#''" and p = "''{''" and s = "''}''"
      and t = example_table]
  from inst h1 h2 h3 h4 h5 h6 h7 h8 h9 obtain r where
    r: "localize example_registry (Str ''#{greet}'') = Some (Inr (Str r))" by blast
  with inst have fixed: "find_all (regex example_registry) r = []"
    "localize example_registry (Str r) = Some (Inr (Str r))" by blast+
  from r localize_greet have "r = ''Hi, I'm Harold''" by simp
  with r fixed h1 h2 h3 h4 h5 h6 h7 h8 h9 show ?thesis by blast
qed

text \<open>
  The claim C8 as it was stated fails where it says that the loop reaches a fixpoint for
  every acyclic key-reference graph: in the table of \<open>splice_document\<close> the only
  reference goes from \<open>b\<close> to \<open>a\<close>, yet resolving \<open>#{b}\<close> never returns, because
  the value of \<open>a\<close>, which is not closed, joins the text after it into a new token for
  \<open>b\<close>.
\<close>

theorem acyclic_references_diverge:
  "acyclic_references (regex splice_registry) (flatten splice_document)
   \<and> \<not> closed_value CHR ''#'' (regex splice_registry) ''#{''
   \<and> localize splice_registry (Str ''#{b}'') = None"
proof -
  have "lang splice_registry = Str ''en''" by (simp add: splice_registry_def registry_defs)
  then have "localize splice_registry (Str ''#{b}'') = None"
    by (simp add: localize_def replace_def splice_data splice_diverges)
  moreover have "\<not> closed_value CHR ''#'' (regex splice_registry) ''#{''"
    by (simp add: closed_value_def splice_registry_def registry_defs)
  ultimately show ?thesis using splice_acyclic by (simp add: flatten_splice)
qed

section \<open>The current language and the menu\<close>

lemma indexOf_bounds: "- 1 \<le> indexOf xs v \<and> indexOf xs v < int (length xs)"
  by (induction xs) (auto simp: Let_def)

lemma indexOf_absent: "indexOf xs v < 0 \<longleftrightarrow> v \<notin> Str ` set xs"
proof (induction xs)
  case Nil
  then show ?case by simp
next
  case (Cons x xs)
  with indexOf_bounds [of xs v] show ?case by (auto simp: Let_def)
qed

lemma contains_iff: "contains xs v \<longleftrightarrow> v \<in> Str ` set xs"
  using indexOf_absent [of xs v] by (auto simp: contains_def)

lemma indexOf_nth: "distinct xs \<Longrightarrow> i < length xs \<Longrightarrow> indexOf xs (Str (xs ! i)) = int i"
proof (induction xs arbitrary: i)
  case Nil
  then show ?case by simp
next
  case (Cons x xs)
  show ?case
  proof (cases i)
    case 0
    then show ?thesis by simp
  next
    case (Suc j)
    with Cons.prems have j: "j < length xs" and d: "distinct xs" and "xs ! j \<noteq> x"
      by auto
    with Cons.IH [OF d j] Suc show ?thesis by (simp add: Let_def)
  qed
qed

lemma elem_nth: "i < length xs \<Longrightarrow> elem xs (int i) = Str (xs ! i)"
  by (simp add: elem_def)

lemma elem_in_range: "0 \<le> i \<Longrightarrow> i < int (length xs) \<Longrightarrow> elem xs i \<in> Str ` set xs"
  by (simp add: elem_def)

lemma elem_first: "elem xs 0 = (case xs of [] \<Rightarrow> Undefined | l # ls \<Rightarrow> Str l)"
  by (cases xs) (simp_all add: elem_def)

lemma prev_next:
  assumes d: "distinct (languages st)" and i: "i < length (languages st)"
  shows "prevLanguage st (nextLanguage st (Str (languages st ! i))) = Str (languages st ! i)"
proof -
  let ?ls = "languages st"
  let ?n = "length ?ls"
  have ix: "indexOf ?ls (Str (?ls ! i)) = int i" using d i by (rule indexOf_nth)
  show ?thesis
  proof (cases i)
    case 0
    with ix i have "nextLanguage st (Str (?ls ! i)) = Str (?ls ! (?n - 1))"
      by (simp add: nextLanguage_def Let_def elem_def nat_diff_distrib')
    moreover have "indexOf ?ls (Str (?ls ! (?n - 1))) = int (?n - 1)"
      using d i by (intro indexOf_nth) auto
    ultimately show ?thesis using 0 i
      by (simp add: prevLanguage_def Let_def elem_def)
  next
    case (Suc j)
    with ix i have "nextLanguage st (Str (?ls ! i)) = Str (?ls ! j)"
      by (simp add: nextLanguage_def Let_def elem_def)
    moreover have "indexOf ?ls (Str (?ls ! j)) = int j"
      using d i Suc by (intro indexOf_nth) auto
    ultimately show ?thesis using Suc i
      by (simp add: prevLanguage_def Let_def elem_def nat_add_distrib)
  qed
qed

lemma next_prev:
  assumes d: "distinct (languages st)" and i: "i < length (languages st)"
  shows "nextLanguage st (prevLanguage st (Str (languages st ! i))) = Str (languages st ! i)"
proof -
  let ?ls = "languages st"
  let ?n = "length ?ls"
  have ix: "indexOf ?ls (Str (?ls ! i)) = int i" using d i by (rule indexOf_nth)
  show ?thesis
  proof (cases "Suc i < ?n")
    case True
    with ix have "prevLanguage st (Str (?ls ! i)) = Str (?ls ! Suc i)"
      by (simp add: prevLanguage_def Let_def elem_def nat_add_distrib)
    moreover have "indexOf ?ls (Str (?ls ! Suc i)) = int (Suc i)"
      using d True by (rule indexOf_nth)
    ultimately show ?thesis using True
      by (simp add: nextLanguage_def Let_def elem_def)
  next
    case False
    with i have last: "i = ?n - 1" by simp
    from i have ne: "?ls \<noteq> []" by auto
    with False ix i have "prevLanguage st (Str (?ls ! i)) = Str (?ls ! 0)"
      by (simp add: prevLanguage_def Let_def elem_def)
    moreover have "indexOf ?ls (Str (?ls ! 0)) = int 0"
      using d i by (intro indexOf_nth) auto
    ultimately show ?thesis using last i ne
      by (simp add: nextLanguage_def Let_def elem_def nat_diff_distrib')
  qed
qed

lemma prev_member: "languages st \<noteq> [] \<Longrightarrow> prevLanguage st v \<in> Str ` set (languages st)"
  using indexOf_bounds [of "languages st" v]
  unfolding prevLanguage_def Let_def by (intro elem_in_range) auto

lemma next_member: "languages st \<noteq> [] \<Longrightarrow> nextLanguage st v \<in> Str ` set (languages st)"
  using indexOf_bounds [of "languages st" v]
  unfolding nextLanguage_def Let_def by (intro elem_in_range) auto

text \<open>
  C3 (as amended). The setter assigns the given value if it is a configured language and
  the first configured language otherwise (\<open>undefined\<close> when none is configured), and
  then refreshes the document title. However the call ends, the getter then returns the
  value assigned. The call throws exactly when the system data is loaded, the game title
  holds a token and the table of the language just assigned is not loaded. When the call
  returns, the state differs from the one before in the language and in the document title
  alone, and the title is the game title resolved under the language assigned (the old title
  without system data). The call does return when the system data is not loaded, when the
  game title holds no token, or when the table of the language assigned is loaded, its
  key-reference graph is acyclic, its values are closed and the escape code starts with a
  marker.
\<close>

theorem set_language_fallback:
  assumes new: "new = (if v \<in> Str ` set (param_languages st) then v
                       else (case param_languages st of [] \<Rightarrow> Undefined | l # ls \<Rightarrow> Str l))"
  shows "(\<forall>e st'. set_language v st = Some (e, st') \<longrightarrow> get_language st' = new)
         \<and> ((\<exists>e st'. set_language v st = Some (Some e, st'))
              \<longleftrightarrow> (\<exists>gameTitle. dataSystem st = Some gameTitle
                     \<and> find_all (regex st) gameTitle \<noteq> []
                     \<and> (\<forall>d. data st (to_string new) \<noteq> Some (Loaded d))))
         \<and> (\<forall>st'. set_language v st = Some (None, st') \<longrightarrow>
               (\<exists>r. st' = st\<lparr>lang := new, document_title := r\<rparr>
                    \<and> (case dataSystem st of
                          None \<Rightarrow> r = document_title st
                        | Some gameTitle \<Rightarrow>
                            localize (st\<lparr>lang := new\<rparr>) (Str gameTitle) = Some (Inr (Str r)))))
         \<and> ((case dataSystem st of
                None \<Rightarrow> True
              | Some gameTitle \<Rightarrow>
                  find_all (regex st) gameTitle = []
                  \<or> (data st (to_string new) = Some (Loaded t)
                      \<and> regex st = compile template \<and> split_key template = Some (c # p, s)
                      \<and> \<not> is_key_char c \<and> c \<notin> set p \<and> c \<notin> set s \<and> c \<notin> set '' (){}[]''
                      \<and> acyclic_references (regex st) t
                      \<and> list_all (\<lambda>(k, v). closed_value c (regex st) (to_string v)) t))
              \<longrightarrow> (\<exists>st'. set_language v st = Some (None, st')))"
    (is "?P1 \<and> ?P2 \<and> ?P3 \<and> ?P4")
proof -
  let ?st = "st\<lparr>lang := new\<rparr>"
  have "(if contains (param_languages st) v then v else elem (param_languages st) 0) = new"
    by (simp add: new contains_iff elem_first)
  then have set: "set_language v st = updateDocumentTitle ?st"
    by (simp only: set_language_def)
  show ?thesis
  proof (cases "dataSystem st")
    case None
    then have ret: "set_language v st = Some (None, ?st)"
      by (simp add: set updateDocumentTitle_def)
    have same: "?st = st\<lparr>lang := new, document_title := document_title st\<rparr>" by simp
    from ret have ?P1 by (simp add: get_language_def)
    moreover from ret None have ?P2 by simp
    moreover from ret None same have ?P3 by auto
    moreover from ret have ?P4 by simp
    ultimately show ?thesis by blast
  next
    case (Some gameTitle)
    let ?d = "data st (to_string new)"
    let ?loop = "replace_loop (regex st) ?d gameTitle"
    have loc: "localize ?st (Str gameTitle) = map_option (map_sum id Str) ?loop"
      by (simp add: localize_def replace_def)
    have upd: "set_language v st =
                 (case ?loop of None \<Rightarrow> None
                  | Some (Inl e) \<Rightarrow> Some (Some e, ?st)
                  | Some (Inr r) \<Rightarrow> Some (None, ?st\<lparr>document_title := r\<rparr>))"
      using Some
      by (simp add: set updateDocumentTitle_def replace_def split: option.splits sum.splits)
    have P1: ?P1
      using upd by (auto simp: get_language_def split: option.splits sum.splits)
    have throws: "(\<exists>e st'. set_language v st = Some (Some e, st')) \<longleftrightarrow> (\<exists>e. ?loop = Some (Inl e))"
      using upd by (auto split: option.splits sum.splits)
    have P2: ?P2
    proof -
      have "(\<exists>e. ?loop = Some (Inl e))
            \<longleftrightarrow> (find_all (regex st) gameTitle \<noteq> [] \<and> (\<forall>d. ?d \<noteq> Some (Loaded d)))"
      proof
        assume "\<exists>e. ?loop = Some (Inl e)"
        then obtain e where e: "?loop = Some (Inl e)" ..
        have "find_all (regex st) gameTitle \<noteq> []"
        proof
          assume "find_all (regex st) gameTitle = []"
          from replace_loop_no_match [OF this, of ?d] e show False by simp
        qed
        moreover have "?d \<noteq> Some (Loaded d)" for d
          using replace_loop_loaded [OF e, of d] by auto
        ultimately show "find_all (regex st) gameTitle \<noteq> [] \<and> (\<forall>d. ?d \<noteq> Some (Loaded d))"
          by blast
      next
        assume a: "find_all (regex st) gameTitle \<noteq> [] \<and> (\<forall>d. ?d \<noteq> Some (Loaded d))"
        then have "?d = None \<or> ?d = Some Unloaded"
          by (cases ?d) (auto intro: slot.exhaust)
        with a have "?loop = Some (Inl TypeError)" by (intro replace_loop_unloaded) simp_all
        then show "\<exists>e. ?loop = Some (Inl e)" by blast
      qed
      with throws Some show ?thesis by simp
    qed
    have P3: ?P3
    proof (intro allI impI)
      fix st' assume "set_language v st = Some (None, st')"
      with upd obtain r where r: "?loop = Some (Inr r)" and st': "st' = ?st\<lparr>document_title := r\<rparr>"
        by (auto split: option.splits sum.splits)
      from r loc have "localize ?st (Str gameTitle) = Some (Inr (Str r))" by simp
      with st' Some show "\<exists>r. st' = st\<lparr>lang := new, document_title := r\<rparr>
                    \<and> (case dataSystem st of
                          None \<Rightarrow> r = document_title st
                        | Some gameTitle \<Rightarrow>
                            localize (st\<lparr>lang := new\<rparr>) (Str gameTitle) = Some (Inr (Str r)))"
        by auto
    qed
    have P4: ?P4
    proof
      assume "case dataSystem st of
                None \<Rightarrow> True
              | Some gameTitle \<Rightarrow>
                  find_all (regex st) gameTitle = []
                  \<or> (data st (to_string new) = Some (Loaded t)
                      \<and> regex st = compile template \<and> split_key template = Some (c # p, s)
                      \<and> \<not> is_key_char c \<and> c \<notin> set p \<and> c \<notin> set s \<and> c \<notin> set '' (){}[]''
                      \<and> acyclic_references (regex st) t
                      \<and> list_all (\<lambda>(k, v). closed_value c (regex st) (to_string v)) t)"
      with Some consider (plain) "find_all (regex st) gameTitle = []"
        | (tokens) "data st (to_string new) = Some (Loaded t)"
            "regex st = compile template" "split_key template = Some (c # p, s)"
            "\<not> is_key_char c" "c \<notin> set p" "c \<notin> set s" "c \<notin> set '' (){}[]''"
            "acyclic_references (regex st) t"
            "list_all (\<lambda>(k, v). closed_value c (regex st) (to_string v)) t"
        by auto
      then have "\<exists>r. ?loop = Some (Inr r)"
      proof cases
        case plain
        then show ?thesis by (simp add: replace_loop_no_match)
      next
        case tokens
        from tokens(2,3) have re: "regex st = map Chr (c # p) @ KeyGroup # map Chr s"
          by (simp add: compile_def)
        from acyclic_table_returns [OF re tokens(4-9), of gameTitle] tokens(1)
        show ?thesis by simp
      qed
      with upd show "\<exists>st'. set_language v st = Some (None, st')" by auto
    qed
    from P1 P2 P3 P4 show ?thesis by blast
  qed
qed

theorem set_language_fallback_witness:
  "Str ''en'' = (if Str ''fr'' \<in> Str ` set (param_languages running_registry) then Str ''fr''
                 else (case param_languages running_registry of [] \<Rightarrow> Undefined
                       | l # ls \<Rightarrow> Str l))
   \<and> dataSystem running_registry = Some ''#{hero}''
   \<and> find_all (regex running_registry) ''#{hero}'' \<noteq> []
   \<and> data running_registry (to_string (Str ''en'')) = Some (Loaded example_table)
   \<and> regex running_registry = compile ''#{{key}}''
   \<and> split_key ''#{{key}}'' = Some (CHR ''#'' # ''{'', ''}'')
   \<and> \<not> is_key_char CHR ''#'' \<and> CHR ''#'' \<notin> set ''{'' \<and> CHR ''#'' \<notin> set ''}''
   \<and> CHR ''#'' \<notin> set '' (){}[]''
   \<and> acyclic_references (regex running_registry) example_table
   \<and> list_all (\<lambda>(k, v). closed_value CHR ''#'' (regex running_registry) (to_string v))
         example_table
   \<and> set_language (Str ''fr'') running_registry
       = Some (None, running_registry\<lparr>lang := Str ''en'', document_title := ''Harold''\<rparr>)
   \<and> get_language (running_registry\<lparr>lang := Str ''en'', document_title := ''Harold''\<rparr>)
       = Str ''en''"
proof -
  have ls: "param_languages running_registry = [''en'']"
    and ds: "dataSystem running_registry = Some ''#{hero}''"
    and rx: "regex running_registry = regex example_registry"
    and dt: "data running_registry (to_string (Str ''en'')) = Some (Loaded example_table)"
    by (simp_all add: running_registry_def registry_defs flatten_example [unfolded registry_defs])
  have new: "Str ''en'' = (if Str ''fr'' \<in> Str ` set (param_languages running_registry)
                           then Str ''fr''
                           else (case param_languages running_registry of [] \<Rightarrow> Undefined
                                 | l # ls \<Rightarrow> Str l))"
    by (simp add: ls)
  have t1: "regex running_registry = compile ''#{{key}}''"
    by (simp add: rx example_registry_def unloaded_registry_def load_def initialize_def init_def
        Let_def)
  have t2: "split_key ''#{{key}}'' = Some (CHR ''#'' # ''{'', ''}'')" by simp
  have t3: "\<not> is_key_char CHR ''#''" by (simp add: is_key_char_def)
  have t4: "CHR ''#'' \<notin> set ''{''" and t5: "CHR ''#'' \<notin> set ''}''"
    and t6: "CHR ''#'' \<notin> set '' (){}[]''" by simp_all
  have t7: "acyclic_references (regex running_registry) example_table"
    using example_acyclic by (simp only: rx)
  have t8: "list_all (\<lambda>(k, v). closed_value CHR ''#'' (regex running_registry) (to_string v))
              example_table"
    using example_closed by (simp only: rx)
  have tok: "find_all (regex running_registry) ''#{hero}'' \<noteq> []"
    by (simp add: t1 compile_def find_all_def is_key_char_def)
  have title: "localize (running_registry\<lparr>lang := Str ''en''\<rparr>) (Str ''#{hero}'')
                 = Some (Inr (Str ''Harold''))"
    by (simp add: running_registry_def registry_defs resolve_defs
        flatten_example [unfolded registry_defs] replace_loop.simps)
  note inst = set_language_fallback [OF new, where t = example_table
      and template = "''#{{key}}''" and c = "CHR ''#''" and p = "''{''" and s = "''}''"]
  have "case dataSystem running_registry of
          None \<Rightarrow> True
        | Some gameTitle \<Rightarrow>
            find_all (regex running_registry) gameTitle = []
            \<or> (data running_registry (to_string (Str ''en'')) = Some (Loaded example_table)
                \<and> regex running_registry = compile ''#{{key}}''
                \<and> split_key ''#{{key}}'' = Some (CHR ''#'' # ''{'', ''}'')
                \<and> \<not> is_key_char CHR ''#'' \<and> CHR ''#'' \<notin> set ''{'' \<and> CHR ''#'' \<notin> set ''}''
                \<and> CHR ''#'' \<notin> set '' (){}[]''
                \<and> acyclic_references (regex running_registry) example_table
                \<and> list_all (\<lambda>(k, v). closed_value CHR ''#'' (regex running_registry)
                      (to_string v)) example_table)"
    using dt t1 t2 t3 t4 t5 t6 t7 t8 by (simp only: ds option.case) blast
  with inst obtain st' where
    ret: "set_language (Str ''fr'') running_registry = Some (None, st')" by blast
  with inst obtain r where
    st': "st' = running_registry\<lparr>lang := Str ''en'', document_title := r\<rparr>"
    and r: "case dataSystem running_registry of None \<Rightarrow> r = document_title running_registry
            | Some gameTitle \<Rightarrow>
                localize (running_registry\<lparr>lang := Str ''en''\<rparr>) (Str gameTitle)
                  = Some (Inr (Str r))"
    by blast
  from r title have "r = ''Harold''" by (simp add: ds)
  with ret st' have res: "set_language (Str ''fr'') running_registry
      = Some (None, running_registry\<lparr>lang := Str ''en'', document_title := ''Harold''\<rparr>)"
    by simp
  with inst have "get_language (running_registry\<lparr>lang := Str ''en'', document_title := ''Harold''\<rparr>)
                    = Str ''en''" by blast
  with new ds tok dt t1 t2 t3 t4 t5 t6 t7 t8 res show ?thesis by blast
qed

text \<open>
  The claim C3 as it was stated fails where it says that the setter never fails: when the
  system data is there, the game title holds a token and the file of the language has not
  arrived, the language is assigned and the refresh of the title throws; and with the table
  of \<open>splice_document\<close> behind a game title that refers to \<open>b\<close> the setter never
  returns.
\<close>

theorem set_language_fails:
  "set_language (Str ''fr'') booting_registry
     = Some (Some TypeError, booting_registry\<lparr>lang := Str ''en''\<rparr>)
   \<and> set_language (Str ''en'') looping_registry = None"
proof -
  have throws: "set_language (Str ''fr'') booting_registry
                  = Some (Some TypeError, booting_registry\<lparr>lang := Str ''en''\<rparr>)"
    by (simp add: set_language_def updateDocumentTitle_def contains_def
      booting_registry_def registry_defs resolve_defs replace_loop.simps)
  have "lang looping_registry = Str ''en''" "param_languages looping_registry = [''en'']"
    "dataSystem looping_registry = Some ''#{b}''"
    "regex looping_registry = regex splice_registry"
    "data looping_registry = data splice_registry"
    by (simp_all add: looping_registry_def splice_registry_def registry_defs)
  then have "set_language (Str ''en'') looping_registry = None"
    by (simp add: set_language_def updateDocumentTitle_def contains_def replace_def
        splice_data splice_diverges)
  with throws show ?thesis by simp
qed

text \<open>
  C10 (as amended). For a list of configured languages that is not empty and has no
  duplicates, the two cycling helpers of the menu undo each other on every configured
  language, and each returns a configured language for every argument, registered or not.
\<close>

theorem cycle_inverse:
  assumes "distinct (languages st)" and "languages st \<noteq> []"
  shows "(\<forall>l \<in> set (languages st).
            prevLanguage st (nextLanguage st (Str l)) = Str l
            \<and> nextLanguage st (prevLanguage st (Str l)) = Str l)
         \<and> (\<forall>v. prevLanguage st v \<in> Str ` set (languages st)
                \<and> nextLanguage st v \<in> Str ` set (languages st))"
  using assms by (auto simp: in_set_conv_nth prev_next next_prev prev_member next_member)

theorem cycle_inverse_witness:
  "distinct (languages bilingual_registry) \<and> languages bilingual_registry \<noteq> []
   \<and> prevLanguage bilingual_registry (nextLanguage bilingual_registry (Str ''en'')) = Str ''en''
   \<and> nextLanguage bilingual_registry (prevLanguage bilingual_registry (Str ''de'')) = Str ''de''
   \<and> nextLanguage bilingual_registry (Str ''fr'') \<in> Str ` set (languages bilingual_registry)"
proof -
  have ls: "languages bilingual_registry = [''en'', ''de'']"
    by (simp add: languages_def bilingual_registry_def registry_defs)
  then have h1: "distinct (languages bilingual_registry)"
    and h2: "languages bilingual_registry \<noteq> []" by simp_all
  from cycle_inverse [OF h1 h2] h1 h2 ls show ?thesis by simp
qed

text \<open>
  The claim C10 as it was stated fails for the empty list, which has no duplicates: with no
  language configured a helper returns \<open>undefined\<close>, which is not in the list.
\<close>

theorem cycle_empty_list:
  "distinct (languages empty_registry)
   \<and> prevLanguage empty_registry (Str ''en'') = Undefined
   \<and> prevLanguage empty_registry (Str ''en'') \<notin> Str ` set (languages empty_registry)"
  by (simp add: prevLanguage_def languages_def empty_registry_def registry_defs)

section \<open>Adjacent tokens\<close>




section \<open>The flattener\<close>

lemma leaf_paths_nonempty: "(p, w) \<in> set (leaf_paths d) \<Longrightarrow> p \<noteq> []"
  by (subst (asm) leaf_paths.simps) (auto split: if_splits)

lemma join_path_Cons: "p \<noteq> [] \<Longrightarrow> join_path (k # p) = k @ ''.'' @ join_path p"
  by (cases p) simp_all

lemma leaf_entries_children: "leaf_entries d = concat (map emit (children d))"
proof -
  let ?F = "\<lambda>(p, v). (join_path p, v)"
  let ?G = "\<lambda>(key, v). if is_collection v then map (\<lambda>(p, w). (key # p, w)) (leaf_paths v)
                        else [([key], value_of v)]"
  have one: "map ?F (?G kv) = emit kv" for kv
  proof (cases kv)
    case (Pair key v)
    have "map ?F (map (\<lambda>(p, w). (key # p, w)) (leaf_paths v))
            = map (\<lambda>(x, w). (key @ ''.'' @ x, w)) (map ?F (leaf_paths v))"
      by (auto simp: join_path_Cons dest: leaf_paths_nonempty)
    with Pair show ?thesis by (simp add: emit_def leaf_entries_def)
  qed
  have "leaf_entries d = map ?F (leaf_paths d)" by (simp add: leaf_entries_def)
  also have "leaf_paths d = concat (map ?G (children d))" by (rule leaf_paths.simps)
  also have "map ?F (concat (map ?G (children d))) = concat (map (\<lambda>kv. map ?F (?G kv)) (children d))"
    by (simp add: map_concat comp_def)
  also have "\<dots> = concat (map emit (children d))" by (simp only: one)
  finally show ?thesis .
qed

lemma update_fresh: "k \<notin> fst ` set r \<Longrightarrow> AList.update k v r = r @ [(k, v)]"
  by (induction r) auto

lemma dotted_not_proto: "key @ ''.'' @ x \<noteq> ''__proto__''"
proof
  assume eq: "key @ ''.'' @ x = ''__proto__''"
  have "CHR ''.'' \<in> set (key @ ''.'' @ x)" by simp
  then have "CHR ''.'' \<in> set ''__proto__''" unfolding eq .
  then show False by simp
qed

lemma fold_assign_fresh:
  assumes "distinct (map fst (r @ map (\<lambda>(x, w). (key @ ''.'' @ x, w)) xs))"
  shows "fold (\<lambda>(x, tv) result. assign result (key @ ''.'' @ x) tv) xs r
           = r @ map (\<lambda>(x, w). (key @ ''.'' @ x, w)) xs"
  using assms
proof (induction xs arbitrary: r)
  case Nil
  then show ?case by simp
next
  case (Cons e xs)
  obtain x w where e: "e = (x, w)" by (cases e)
  from Cons.prems e have fresh: "key @ ''.'' @ x \<notin> fst ` set r" by auto
  then have step: "assign r (key @ ''.'' @ x) w = r @ [(key @ ''.'' @ x, w)]"
    using dotted_not_proto [of key x] by (simp add: assign_def update_fresh)
  from Cons.prems e
  have "distinct (map fst ((r @ [(key @ ''.'' @ x, w)]) @ map (\<lambda>(x, w). (key @ ''.'' @ x, w)) xs))"
    by simp
  from Cons.IH [OF this] e step show ?case by simp
qed

lemma fold_flatten_step:
  assumes "\<forall>kv \<in> set es. is_collection (snd kv) \<longrightarrow> flatten (snd kv) = leaf_entries (snd kv)"
    and "\<forall>kv \<in> set es. snd kv \<noteq> JNull"
    and "\<forall>kv \<in> set es. \<not> is_collection (snd kv) \<longrightarrow> fst kv \<noteq> ''__proto__''"
    and "distinct (map fst (r @ concat (map emit es)))"
  shows "fold (\<lambda>(key, v) result.
                 if typeof_object v
                 then fold (\<lambda>(x, tv) result. assign result (key @ ''.'' @ x) tv) (flatten v) result
                 else assign result key (value_of v)) es r
         = r @ concat (map emit es)"
  using assms
proof (induction es arbitrary: r)
  case Nil
  then show ?case by simp
next
  case (Cons e es)
  obtain key v where e: "e = (key, v)" by (cases e)
  let ?step = "\<lambda>(key, v) result.
                 if typeof_object v
                 then fold (\<lambda>(x, tv) result. assign result (key @ ''.'' @ x) tv) (flatten v) result
                 else assign result key (value_of v)"
  have one: "?step e r = r @ emit e"
  proof (cases "is_collection v")
    case True
    with Cons.prems(1) e have fl: "flatten v = leaf_entries v" by simp
    from True have obj: "typeof_object v" by (cases v) simp_all
    from True e have em: "emit e = map (\<lambda>(x, w). (key @ ''.'' @ x, w)) (leaf_entries v)"
      by (simp add: emit_def)
    from Cons.prems(4) have "distinct (map fst (r @ emit e))" by auto
    then have "distinct (map fst (r @ map (\<lambda>(x, w). (key @ ''.'' @ x, w)) (leaf_entries v)))"
      by (simp only: em)
    from fold_assign_fresh [OF this] e obj fl em show ?thesis by simp
  next
    case False
    with Cons.prems(2) e have scalar: "\<not> typeof_object v" by (cases v) simp_all
    from False e have em: "emit e = [(key, value_of v)]" by (simp add: emit_def)
    from False Cons.prems(3) e have "key \<noteq> ''__proto__''" by simp
    moreover from Cons.prems(4) have "distinct (map fst (r @ emit e))" by auto
    then have "key \<notin> fst ` set r" by (auto simp: em)
    ultimately show ?thesis using e scalar em
      by (simp add: assign_def update_fresh)
  qed
  from Cons.prems(4) have "distinct (map fst ((r @ emit e) @ concat (map emit es)))" by simp
  with Cons.prems(1-3) have rest: "fold ?step es (r @ emit e) = (r @ emit e) @ concat (map emit es)"
    by (intro Cons.IH) simp_all
  have "fold ?step (e # es) r = fold ?step es (?step e r)" by (simp only: fold_simps)
  also have "\<dots> = fold ?step es (r @ emit e)" by (simp only: one)
  also have "\<dots> = r @ concat (map emit (e # es))" by (simp only: rest) simp
  finally show ?case .
qed

lemma inherited_collection: "is_collection d \<Longrightarrow> inherited d = []"
  by (cases d) simp_all

lemma entries_children: "is_collection d \<Longrightarrow> entries d = children d"
  by (cases d) simp_all

lemma collection_typeof: "is_collection d \<Longrightarrow> typeof_object d"
  by (cases d) simp_all

lemma leaf_paths_below:
  assumes "(key, v) \<in> set (children d)" and "is_collection v" and "(p, w) \<in> set (leaf_paths v)"
  shows "(key # p, w) \<in> set (leaf_paths d)"
  using assms by (subst leaf_paths.simps) force

lemma leaf_paths_direct:
  assumes "(key, v) \<in> set (children d)" and "\<not> is_collection v"
  shows "([key], value_of v) \<in> set (leaf_paths d)"
  using assms by (subst leaf_paths.simps) force

lemma distinct_emit:
  assumes "distinct (map fst (concat (map emit es)))" and "(key, v) \<in> set es"
    and "is_collection v"
  shows "distinct (map fst (leaf_entries v))"
proof -
  from assms(1) have "distinct (concat (map (map fst \<circ> emit) es))"
    by (simp add: map_concat)
  moreover from assms(2) have "(map fst \<circ> emit) (key, v) \<in> set (map (map fst \<circ> emit) es)"
    by (simp only: set_map) (rule imageI)
  ultimately have "distinct ((map fst \<circ> emit) (key, v))"
    by (simp only: distinct_concat_iff)
  with assms(3) have "distinct (map ((\<lambda>x. key @ ''.'' @ x) \<circ> fst) (leaf_entries v))"
    by (simp add: emit_def comp_def case_prod_unfold)
  then have "distinct (map (\<lambda>x. key @ ''.'' @ x) (map fst (leaf_entries v)))" by simp
  then show ?thesis by (simp only: distinct_map)
qed

lemma flatten_leaf_entries:
  assumes "is_collection d" and "list_all scalar_leaf (leaf_paths d)"
    and "distinct (map fst (leaf_entries d))"
  shows "flatten d = leaf_entries d"
  using assms
proof (induction d rule: flatten.induct)
  case (1 d)
  note coll = \<open>is_collection d\<close>
  have leaves: "scalar_leaf l" if "l \<in> set (leaf_paths d)" for l
    using "1.prems"(2) that by (simp add: list_all_iff)
  have dist: "distinct (map fst (concat (map emit (children d))))"
    using "1.prems"(3) by (simp only: leaf_entries_children)
  have sub: "flatten v = leaf_entries v" if mem: "(key, v) \<in> set (children d)" and c: "is_collection v"
    for key v
  proof (rule "1.IH")
    from mem coll show "(key, v) \<in> set (entries d)" by (simp add: entries_children)
    show "(key, v) = (key, v)" ..
    from c show "typeof_object v" by (rule collection_typeof)
    show "is_collection v" by (rule c)
    show "list_all scalar_leaf (leaf_paths v)"
      unfolding list_all_iff
    proof
      fix l assume l: "l \<in> set (leaf_paths v)"
      obtain p w where pw: "l = (p, w)" by (cases l)
      with l have ne: "p \<noteq> []" by (auto dest: leaf_paths_nonempty)
      from l pw have "(key # p, w) \<in> set (leaf_paths d)"
        by (intro leaf_paths_below [OF mem c]) simp
      from leaves [OF this] ne pw show "scalar_leaf l" by (simp add: scalar_leaf_def)
    qed
    from dist mem c show "distinct (map fst (leaf_entries v))" by (rule distinct_emit)
  qed
  have c1: "\<forall>kv \<in> set (children d). is_collection (snd kv) \<longrightarrow> flatten (snd kv) = leaf_entries (snd kv)"
    using sub by auto
  have direct: "scalar_leaf ([key], value_of v)"
    if "(key, v) \<in> set (children d)" and "\<not> is_collection v" for key v
    using leaves [OF leaf_paths_direct [OF that]] .
  have c2: "\<forall>kv \<in> set (children d). snd kv \<noteq> JNull"
  proof
    fix kv assume kv: "kv \<in> set (children d)"
    show "snd kv \<noteq> JNull"
    proof
      assume n: "snd kv = JNull"
      with kv have "(fst kv, JNull) \<in> set (children d)" by (metis prod.collapse)
      from direct [OF this] show False by (simp add: scalar_leaf_def)
    qed
  qed
  have c3: "\<forall>kv \<in> set (children d). \<not> is_collection (snd kv) \<longrightarrow> fst kv \<noteq> ''__proto__''"
  proof (intro ballI impI)
    fix kv assume kv: "kv \<in> set (children d)" and nc: "\<not> is_collection (snd kv)"
    then have "(fst kv, snd kv) \<in> set (children d)" by simp
    from direct [OF this nc] show "fst kv \<noteq> ''__proto__''" by (simp add: scalar_leaf_def)
  qed
  from dist have c4: "distinct (map fst ([] @ concat (map emit (children d))))" by simp
  have "flatten d = [] @ concat (map emit (children d))"
    by (subst flatten.simps, subst entries_children [OF coll], subst inherited_collection [OF coll],
        simp only: fold.simps id_apply)
      (rule fold_flatten_step [OF c1 c2 c3 c4])
  then show ?case by (simp add: leaf_entries_children)
qed

text \<open>
  C4 (as amended). For every document that is an object or an array, whose leaves are
  scalars, none of them under the key \<open>__proto__\<close>, and whose leaf paths join to
  pairwise different keys: the table that \<open>_flatten\<close> builds consists of exactly one
  entry per leaf, with the joined path as key and the value of the leaf as value, in the
  order of the leaves, and of nothing else.
\<close>

theorem flatten_leaf_paths:
  assumes "is_collection d" and "list_all scalar_leaf (leaf_paths d)"
    and "distinct (map (join_path \<circ> fst) (leaf_paths d))"
  shows "flatten d = map (\<lambda>(p, v). (join_path p, v)) (leaf_paths d)
         \<and> (\<forall>(p, v) \<in> set (leaf_paths d). map_of (flatten d) (join_path p) = Some v)
         \<and> fst ` set (flatten d) = (join_path \<circ> fst) ` set (leaf_paths d)"
proof -
  have keys: "map fst (leaf_entries d) = map (join_path \<circ> fst) (leaf_paths d)"
    by (simp add: leaf_entries_def comp_def case_prod_unfold)
  with assms(3) have dist: "distinct (map fst (leaf_entries d))" by simp
  from assms(1,2) dist have eq: "flatten d = leaf_entries d" by (rule flatten_leaf_entries)
  have "map_of (flatten d) (join_path p) = Some v" if "(p, v) \<in> set (leaf_paths d)" for p v
  proof -
    from that have "(join_path p, v) \<in> set (leaf_entries d)"
      by (force simp: leaf_entries_def)
    with dist show ?thesis unfolding eq by (rule map_of_is_SomeI)
  qed
  moreover have "fst ` set (flatten d) = (join_path \<circ> fst) ` set (leaf_paths d)"
    using keys unfolding eq by (metis set_map)
  ultimately show ?thesis using eq by (auto simp: leaf_entries_def)
qed

theorem flatten_leaf_paths_witness:
  "is_collection list_document
   \<and> list_all scalar_leaf (leaf_paths list_document)
   \<and> distinct (map (join_path \<circ> fst) (leaf_paths list_document))
   \<and> leaf_paths list_document = [([''list'', ''0''], Str ''A''), ([''list'', ''1''], Str ''B'')]
   \<and> flatten list_document = [(''list.0'', Str ''A''), (''list.1'', Str ''B'')]"
proof -
  have paths: "leaf_paths list_document
                 = [([''list'', ''0''], Str ''A''), ([''list'', ''1''], Str ''B'')]"
    by (simp add: list_document_def leaf_paths.simps dec.simps digit_def)
  have h1: "is_collection list_document" by (simp add: list_document_def)
  have h2: "list_all scalar_leaf (leaf_paths list_document)"
    by (simp add: paths scalar_leaf_def)
  have h3: "distinct (map (join_path \<circ> fst) (leaf_paths list_document))"
    by (simp add: paths)
  from flatten_leaf_paths [OF h1 h2 h3] h1 h2 h3 paths show ?thesis by simp
qed

text \<open>
  The claim C4 as it was stated fails for a document in which two paths join to the same
  key: the leaf visited later overwrites the earlier one, so the table has no entry for
  the leaf \<open>x\<close> at the path \<open>a.b\<close>.
\<close>

theorem flatten_collision:
  "leaf_paths collision_document = [([''a.b''], Str ''x''), ([''a'', ''b''], Str ''y'')]
   \<and> flatten collision_document = [(''a.b'', Str ''y'')]
   \<and> map_of (flatten collision_document) (join_path [''a.b'']) \<noteq> Some (Str ''x'')"
  by (simp add: collision_document_def leaf_paths.simps flatten.simps assign_def)

end
